theory Spec2Isabelle
  imports Main "HOL-Library.Sublist"
begin

section \<open>Strings and the string methods the renderer calls\<close>

text \<open>
  A JavaScript string is a sequence of code units. It is modelled as a \<^typ>\<open>string\<close>, a list
  of \<^typ>\<open>char\<close>: one \<^typ>\<open>char\<close> is one code unit in the range \<open>0x00..0xFF\<close>. Of the
  characters that \<open>trim()\<close> and the regular-expression class \<open>\s\<close> treat as white space,
  the ones in that range are TAB, LF, VT, FF, CR, SPACE and NBSP; of the line terminators that
  \<open>.\<close>, \<open>^\<close> and \<open>$\<close> look at, LF and CR. Texts with a code unit above \<open>0xFF\<close> are not
  covered.
\<close>

abbreviation NL :: char where "NL \<equiv> CHR 0x0A"
abbreviation QUOTE :: char where "QUOTE \<equiv> CHR 0x22"

definition is_ws :: "char \<Rightarrow> bool" where
  "is_ws c \<longleftrightarrow> c = CHR 0x09 \<or> c = CHR 0x0A \<or> c = CHR 0x0B \<or> c = CHR 0x0C \<or> c = CHR 0x0D
     \<or> c = CHR '' '' \<or> c = CHR 0xA0"

definition is_lt :: "char \<Rightarrow> bool" where
  "is_lt c \<longleftrightarrow> c = CHR 0x0A \<or> c = CHR 0x0D"

definition is_digit :: "char \<Rightarrow> bool" where
  "is_digit c \<longleftrightarrow> c = CHR ''0'' \<or> c = CHR ''1'' \<or> c = CHR ''2'' \<or> c = CHR ''3'' \<or> c = CHR ''4''
     \<or> c = CHR ''5'' \<or> c = CHR ''6'' \<or> c = CHR ''7'' \<or> c = CHR ''8'' \<or> c = CHR ''9''"

text \<open>\<open>s.trim()\<close>: white space removed at both ends.\<close>

definition trim :: "string \<Rightarrow> string" where
  "trim s = rev (dropWhile is_ws (rev (dropWhile is_ws s)))"

text \<open>
  \<open>s.split(d)\<close> for a one-character separator \<open>d\<close>; \<open>cur\<close> is the piece being read.
  The empty string splits into one empty piece, as in JavaScript.
\<close>

fun split_from :: "char \<Rightarrow> string \<Rightarrow> string \<Rightarrow> string list" where
  "split_from d cur [] = [cur]"
| "split_from d cur (c # cs) =
     (if c = d then cur # split_from d [] cs else split_from d (cur @ [c]) cs)"

definition split :: "char \<Rightarrow> string \<Rightarrow> string list" where
  "split d s = split_from d [] s"

text \<open>\<open>xs.join(sep)\<close>.\<close>

fun join :: "string \<Rightarrow> string list \<Rightarrow> string" where
  "join sep [] = []"
| "join sep [x] = x"
| "join sep (x # y # ys) = x @ sep @ join sep (y # ys)"

text \<open>\<open>s.includes('|')\<close>.\<close>

definition has_pipe :: "string \<Rightarrow> bool" where
  "has_pipe s \<longleftrightarrow> CHR ''|'' \<in> set s"

section \<open>parseTable\<close>

text \<open>\<open>/^[\s\|:\-]+$/.test(s)\<close>: the separator row of a table.\<close>

definition is_sep_char :: "char \<Rightarrow> bool" where
  "is_sep_char c \<longleftrightarrow> is_ws c \<or> c = CHR ''|'' \<or> c = CHR '':'' \<or> c = CHR ''-''"

definition is_separator :: "string \<Rightarrow> bool" where
  "is_separator s \<longleftrightarrow> s \<noteq> [] \<and> list_all is_sep_char s"

text \<open>\<open>row.split('|').map(cell => cell.trim()).filter(cell => cell !== '')\<close>.\<close>

definition cells :: "string \<Rightarrow> string list" where
  "cells row = filter (\<lambda>cell. cell \<noteq> []) (map trim (split (CHR ''|'') row))"

text \<open>The \<open>forEach\<close> loops that append one \<open><th>\<close> or \<open><td>\<close> element per cell to \<open>html\<close>.\<close>

definition add_th :: "string \<Rightarrow> string list \<Rightarrow> string" where
  "add_th html cs = foldl (\<lambda>h cell. h @ ''<th>'' @ cell @ ''</th>'') html cs"

definition add_td :: "string \<Rightarrow> string list \<Rightarrow> string" where
  "add_td html cs = foldl (\<lambda>h cell. h @ ''<td>'' @ cell @ ''</td>'') html cs"

text \<open>The body of the \<open>for (k = 2; ...)\<close> loop, for the row \<open>tableLines[k]\<close>.\<close>

definition add_row :: "string \<Rightarrow> string \<Rightarrow> string" where
  "add_row html row =
     (let cs = cells row in
      if length cs > 0 then add_td (html @ ''<tr>'') cs @ ''</tr>'' else html)"

text \<open>
  The branch of \<open>parseTable\<close> that builds the HTML of a valid table from \<open>tableLines\<close>
  (the trimmed lines of the run): the header from line 0, line 1 skipped, the rows from 2 on.
\<close>

definition table_open :: string where
  "table_open = ''<table class='' @ [QUOTE] @ ''chat-table'' @ [QUOTE] @ ''>''"

definition table_html :: "string list \<Rightarrow> string" where
  "table_html tableLines =
     (let html = table_open;
          headerCells = cells (tableLines ! 0);
          html = html @ ''<thead><tr>'';
          html = add_th html headerCells;
          html = html @ ''</tr></thead>'';
          html = html @ ''<tbody>'';
          html = foldl add_row html (drop 2 tableLines);
          html = html @ ''</tbody></table>''
      in html)"

text \<open>
  The test \<open>tableLines.length >= 3 && /^[\s\|:\-]+$/.test(tableLines[1])\<close>. The index 1 is
  read only when the length is at least 3.
\<close>

definition valid_table :: "string list \<Rightarrow> bool" where
  "valid_table tableLines \<longleftrightarrow> length tableLines \<ge> 3 \<and> is_separator (tableLines ! 1)"

text \<open>
  The inner loop
  \<open>while (j < lines.length && lines[j].trim().includes('|')) { tableLines.push(lines[j].trim()); j++; }\<close>
  with its two variables; the value is the pair of them when the loop ends.
\<close>

function collect :: "string list \<Rightarrow> nat \<Rightarrow> string list \<Rightarrow> nat \<times> string list" where
  "collect lines j tableLines =
     (if j < length lines \<and> has_pipe (trim (lines ! j))
      then collect lines (j + 1) (tableLines @ [trim (lines ! j)])
      else (j, tableLines))"
  by pat_completeness auto
termination
  by (relation "measure (\<lambda>(lines, j, tableLines). length lines - j)") auto

declare collect.simps [simp del]

lemma collect_ge: "j \<le> fst (collect lines j tableLines)"
proof (induction lines j tableLines rule: collect.induct)
  case (1 lines j tableLines)
  show ?case
  proof (cases "j < length lines \<and> has_pipe (trim (lines ! j))")
    case True
    with "1.IH" have "j + 1 \<le> fst (collect lines (j + 1) (tableLines @ [trim (lines ! j)]))"
      by simp
    with True show ?thesis by (subst collect.simps) simp
  next
    case False
    then show ?thesis by (subst collect.simps) auto
  qed
qed

lemma collect_gt:
  assumes "i < length lines" and "has_pipe (trim (lines ! i))"
  shows "i < fst (collect lines i tableLines)"
proof -
  from assms have "collect lines i tableLines
      = collect lines (i + 1) (tableLines @ [trim (lines ! i)])"
    by (subst collect.simps) simp
  with collect_ge [of "i + 1" lines "tableLines @ [trim (lines ! i)]"] show ?thesis by simp
qed

text \<open>
  The outer loop \<open>while (i < lines.length)\<close> with its variables \<open>i\<close> and \<open>result\<close>; the
  value is \<open>result\<close> when the loop ends. It ends because \<open>i\<close> grows in every round: where
  it is set to \<open>j\<close>, the inner loop has gone past the line \<open>i\<close>. Every read \<open>lines[i]\<close> and
  \<open>lines[j]\<close> stands behind the test of the index against \<open>lines.length\<close>.
\<close>

function parseTable_while :: "string list \<Rightarrow> nat \<Rightarrow> string list \<Rightarrow> string list" where
  "parseTable_while lines i result =
     (if i < length lines then
        (let line = trim (lines ! i) in
         if has_pipe line then
           (let (j, tableLines) = collect lines i [] in
            if valid_table tableLines
            then parseTable_while lines j (result @ [table_html tableLines])
            else parseTable_while lines (i + 1) (result @ [lines ! i]))
         else parseTable_while lines (i + 1) (result @ [lines ! i]))
      else result)"
  by pat_completeness auto
termination
proof (relation "measure (\<lambda>(lines, i, result). length lines - i)")
  fix lines :: "string list" and i :: nat and result :: "string list" and line :: string
    and x :: "nat \<times> string list" and j :: nat and tableLines :: "string list"
  assume "i < length lines" and "line = trim (lines ! i)" and "has_pipe line"
    and "x = collect lines i []" and "(j, tableLines) = x"
  then have "i < j"
    using collect_gt [of i lines "[]"] by (metis fst_conv)
  with \<open>i < length lines\<close>
  show "((lines, j, result @ [table_html tableLines]), lines, i, result)
      \<in> measure (\<lambda>(lines, i, result). length lines - i)"
    by simp
qed auto

declare parseTable_while.simps [simp del]

text \<open>
  The strings of an engine have a greatest length \<open>L\<close>, which differs between engines
  (\<open>2^29 - 24\<close> code units in V8 on a 64-bit machine). A statement that would build a longer
  string (a concatenation, a \<open>join\<close>, a \<open>replace\<close>) throws \<open>RangeError\<close>; no other
  statement of the two functions throws on a string argument. The argument of a function is
  a string of the engine, so it is itself not longer than \<open>L\<close>.
\<close>

datatype exn = RangeError | Exn string

text \<open>
  \<open>parseTable text\<close> is the value of \<open>result.join('\n')\<close>, with which the \<open>try\<close> block of
  \<open>parseTable\<close> returns when nothing is thrown.
\<close>

definition parseTable :: "string \<Rightarrow> string" where
  "parseTable text = join [NL] (parseTable_while (split NL text) 0 [])"

text \<open>
  \<open>parseTable\<close> with its \<open>catch\<close> block, which returns \<open>text\<close>. Every string that the
  \<open>try\<close> block builds is a part of the value of the \<open>join\<close>: the lines and cells are
  parts of \<open>text\<close>, the growing \<open>html\<close> of a table is the beginning of the finished table,
  and each table is an element of \<open>result\<close>. So under the limit \<open>L\<close> the block throws
  exactly when that value is longer than \<open>L\<close>.
\<close>

definition parseTable_guarded :: "nat \<Rightarrow> string \<Rightarrow> string" where
  "parseTable_guarded L text =
     (if length (parseTable text) \<le> L then parseTable text else text)"

section \<open>Regular-expression replacement\<close>

text \<open>
  \<open>s.replace(re, replacement)\<close> for a regular expression with the \<open>g\<close> flag scans \<open>s\<close>
  from left to right: where the expression matches, the replacement is written and the scan
  goes on behind the match; elsewhere one character is copied. A regular expression is
  modelled by a function that is given the text from the current position on, and whether
  that position is the start of a line (what \<open>^\<close> tests under the \<open>m\<close> flag); it returns the
  replacement text and the length of the match. No expression of the renderer matches the
  empty string, so a match always consumes the character at the current position (the
  length 0 is never returned). Whether the next position starts a line is decided by the
  last character of the match, as it is in the text that the expression runs on.
\<close>

type_synonym matcher = "bool \<Rightarrow> string \<Rightarrow> (string \<times> nat) option"

fun gsub :: "matcher \<Rightarrow> bool \<Rightarrow> string \<Rightarrow> string" where
  "gsub m bol [] = []"
| "gsub m bol (c # cs) =
     (case m bol (c # cs) of
        Some (rep, k) \<Rightarrow> rep @ gsub m (is_lt (last (c # take (k - 1) cs))) (drop (k - 1) cs)
      | None \<Rightarrow> c # gsub m (is_lt c) cs)"

definition replace_all :: "matcher \<Rightarrow> string \<Rightarrow> string" where
  "replace_all m s = gsub m True s"

text \<open>\<open>s.indexOf(pat)\<close>: where \<open>pat\<close> first occurs in \<open>s\<close>.\<close>

fun index_of :: "string \<Rightarrow> string \<Rightarrow> nat option" where
  "index_of pat [] = (if pat = [] then Some 0 else None)"
| "index_of pat (c # cs) =
     (if prefix pat (c # cs) then Some 0 else map_option Suc (index_of pat cs))"

text \<open>
  A literal \<open>opn\<close>, then \<open>[\s\S]*?\<close> (or \<open>.*?\<close> under the \<open>s\<close> flag), then a literal
  \<open>cls\<close>: the lazy star stops at the first place where \<open>cls\<close> follows. The value is the
  text between the two and the length of the match.
\<close>

definition lazy_between :: "string \<Rightarrow> string \<Rightarrow> string \<Rightarrow> (string \<times> nat) option" where
  "lazy_between opn cls s =
     (if prefix opn s then
        (case index_of cls (drop (length opn) s) of
           Some i \<Rightarrow> Some (take i (drop (length opn) s), length opn + i + length cls)
         | None \<Rightarrow> None)
      else None)"

text \<open>
  A literal \<open>d\<close>, then \<open>([^c]+)\<close>, then \<open>d\<close> again, where \<open>d\<close> repeats the character
  \<open>c\<close>. The greedy class takes every character up to the next \<open>c\<close>; giving characters back
  cannot help, since what follows them is not \<open>c\<close>.
\<close>

definition delimited :: "string \<Rightarrow> char \<Rightarrow> string \<Rightarrow> (string \<times> nat) option" where
  "delimited d c s =
     (if prefix d s then
        (let body = takeWhile (\<lambda>x. x \<noteq> c) (drop (length d) s) in
         if body \<noteq> [] \<and> prefix d (drop (length d + length body) s)
         then Some (body, length d + length body + length d) else None)
      else None)"

text \<open>
  \<open>^\<close>, a literal \<open>p\<close>, then \<open>(.+)$\<close> under the \<open>m\<close> flag: \<open>.+\<close> takes the rest of the
  line, which must not be empty, and \<open>$\<close> holds there.
\<close>

definition rest_of_line :: "string \<Rightarrow> string" where
  "rest_of_line s = takeWhile (\<lambda>x. \<not> is_lt x) s"

definition line_after :: "string \<Rightarrow> bool \<Rightarrow> string \<Rightarrow> (string \<times> nat) option" where
  "line_after p bol s =
     (if bol \<and> prefix p s then
        (let body = rest_of_line (drop (length p) s) in
         if body \<noteq> [] then Some (body, length p + length body) else None)
      else None)"

text \<open>A literal, replaced by a fixed text.\<close>

definition lit :: "string \<Rightarrow> string \<Rightarrow> matcher" where
  "lit p rep bol s = (if prefix p s then Some (rep, length p) else None)"

text \<open>\<open>s.replace(/c/g, rep)\<close> for one character \<open>c\<close>.\<close>

definition replace_char :: "char \<Rightarrow> string \<Rightarrow> string \<Rightarrow> string" where
  "replace_char c rep s = concat (map (\<lambda>x. if x = c then rep else [x]) s)"

text \<open>
  \<open>s.replace(pat, template)\<close> for a string \<open>pat\<close> replaces the first occurrence only, and
  the replacement text is the template with its \<open>$\<close> patterns expanded: \<open>$$\<close> is a dollar
  sign, \<open>$&\<close> the matched text, \<open>$`\<close> the text before the match and \<open>$'\<close> the text behind
  it. There is no capture group, so \<open>$1\<close> and the like stand for themselves.
\<close>

fun expand :: "string \<Rightarrow> string \<Rightarrow> string \<Rightarrow> string \<Rightarrow> string" where
  "expand matched pre post (c # d # r) =
     (if c = CHR ''$'' then
        (if d = CHR ''$'' then CHR ''$'' # expand matched pre post r
         else if d = CHR ''&'' then matched @ expand matched pre post r
         else if d = CHR 0x60 then pre @ expand matched pre post r
         else if d = CHR 0x27 then post @ expand matched pre post r
         else c # expand matched pre post (d # r))
      else c # expand matched pre post (d # r))"
| "expand matched pre post r = r"

definition replace_first :: "string \<Rightarrow> string \<Rightarrow> string \<Rightarrow> string" where
  "replace_first pat template s =
     (case index_of pat s of
        None \<Rightarrow> s
      | Some i \<Rightarrow>
          take i s @ expand pat (take i s) (drop (i + length pat) s) template
            @ drop (i + length pat) s)"

text \<open>A number inside a template literal: its decimal digits.\<close>

definition digit :: "nat \<Rightarrow> char" where
  "digit n = char_of (of_char (CHR ''0'') + n)"

function decimal :: "nat \<Rightarrow> string" where
  "decimal n = (if n < 10 then [digit n] else decimal (n div 10) @ [digit (n mod 10)])"
  by pat_completeness auto
termination
  by (relation "measure id") auto

declare decimal.simps [simp del]

section \<open>The regular expressions of parseMarkdown\<close>

text \<open>\<open>/<table class="chat-table">[\s\S]*?<\/table>/g\<close>: the value is the length of the match.\<close>

definition table_re :: "string \<Rightarrow> nat option" where
  "table_re s = map_option snd (lazy_between table_open ''</table>'' s)"

text \<open>
  The callback of the first \<open>replace\<close>: each match is pushed on \<open>tables\<close> and replaced by
  the comment that carries its index, \<open>tables.length - 1\<close>. The value is the new text and the
  array \<open>tables\<close> at the end.
\<close>

definition placeholder :: "nat \<Rightarrow> string" where
  "placeholder n = ''<!---TABLE-PLACEHOLDER-'' @ decimal n @ ''--->''"

fun protect_tables :: "string list \<Rightarrow> string \<Rightarrow> string \<times> string list" where
  "protect_tables tables [] = ([], tables)"
| "protect_tables tables (c # cs) =
     (case table_re (c # cs) of
        Some k \<Rightarrow>
          (let tables' = tables @ [c # take (k - 1) cs];
               (html, tables'') = protect_tables tables' (drop (k - 1) cs)
           in (placeholder (length tables' - 1) @ html, tables''))
      | None \<Rightarrow>
          (let (html, tables') = protect_tables tables cs in (c # html, tables')))"

text \<open>\<open>/```([\s\S]*?)```/g\<close> to \<open><pre><code>$1</code></pre>\<close>.\<close>

definition code_block_re :: matcher where
  "code_block_re bol s =
     map_option (\<lambda>(body, k). (''<pre><code>'' @ body @ ''</code></pre>'', k))
       (lazy_between [CHR 0x60, CHR 0x60, CHR 0x60] [CHR 0x60, CHR 0x60, CHR 0x60] s)"

text \<open>\<open>/`([^`]+)`/g\<close> to \<open><code>$1</code>\<close>.\<close>

definition inline_code_re :: matcher where
  "inline_code_re bol s =
     map_option (\<lambda>(body, k). (''<code>'' @ body @ ''</code>'', k))
       (delimited [CHR 0x60] (CHR 0x60) s)"

text \<open>\<open>/\*\*([^*]+)\*\*/g\<close> to \<open><strong>$1</strong>\<close>.\<close>

definition bold_re :: matcher where
  "bold_re bol s =
     map_option (\<lambda>(body, k). (''<strong>'' @ body @ ''</strong>'', k))
       (delimited ''**'' (CHR ''*'') s)"

text \<open>\<open>/\*([^*]+)\*/g\<close> and \<open>/_([^_]+)_/g\<close> to \<open><em>$1</em>\<close>.\<close>

definition italic_re :: "char \<Rightarrow> matcher" where
  "italic_re c bol s =
     map_option (\<lambda>(body, k). (''<em>'' @ body @ ''</em>'', k)) (delimited [c] c s)"

text \<open>
  \<open>/^---+$/gm\<close> to \<open><hr>\<close>: a line of three or more hyphens. \<open>$\<close> holds at the end of the
  text and in front of a line terminator.
\<close>

definition at_eol :: "string \<Rightarrow> bool" where
  "at_eol s = (case s of [] \<Rightarrow> True | x # _ \<Rightarrow> is_lt x)"

definition hr_re :: matcher where
  "hr_re bol s =
     (let hyphens = takeWhile (\<lambda>x. x = CHR ''-'') s in
      if bol \<and> length hyphens \<ge> 3 \<and> at_eol (drop (length hyphens) s)
      then Some (''<hr>'', length hyphens) else None)"

text \<open>\<open>/^&gt; (.+)$/gm\<close> to \<open><blockquote>$1</blockquote>\<close>.\<close>

definition blockquote_re :: matcher where
  "blockquote_re bol s =
     map_option (\<lambda>(body, k). (''<blockquote>'' @ body @ ''</blockquote>'', k))
       (line_after ''&gt; '' bol s)"

text \<open>
  \<open>/^### (.+)$/gm\<close>, \<open>/^## (.+)$/gm\<close> and \<open>/^# (.+)$/gm\<close> to \<open><h3>\<close>, \<open><h2>\<close> and
  \<open><h1>\<close>: \<open>n\<close> is the level.
\<close>

definition header_re :: "nat \<Rightarrow> matcher" where
  "header_re n bol s =
     map_option (\<lambda>(body, k). (''<h'' @ decimal n @ ''>'' @ body @ ''</h'' @ decimal n @ ''>'', k))
       (line_after (replicate n (CHR ''#'') @ '' '') bol s)"

text \<open>\<open>/^\d+\. (.+)$/gm\<close> to \<open><li class="ol-item">$1</li>\<close>.\<close>

definition li_open :: "string \<Rightarrow> string" where
  "li_open cls = ''<li class='' @ [QUOTE] @ cls @ [QUOTE] @ ''>''"

definition ol_item_re :: matcher where
  "ol_item_re bol s =
     (let digits = takeWhile is_digit s in
      if bol \<and> digits \<noteq> [] then
        map_option (\<lambda>(body, k). (li_open ''ol-item'' @ body @ ''</li>'', length digits + k))
          (line_after ''. '' True (drop (length digits) s))
      else None)"

text \<open>\<open>/^[*-] (.+)$/gm\<close> to \<open><li class="ul-item">$1</li>\<close>.\<close>

definition ul_item_re :: matcher where
  "ul_item_re bol s =
     (case s of
        [] \<Rightarrow> None
      | c # r \<Rightarrow>
          if bol \<and> (c = CHR ''*'' \<or> c = CHR ''-'') then
            map_option (\<lambda>(body, k). (li_open ''ul-item'' @ body @ ''</li>'', 1 + k))
              (line_after '' '' True r)
          else None)"

text \<open>
  \<open>/((?:<li class="ol-item">.*?<\/li>\s*)+)/gs\<close> to \<open><ol>$1</ol>\<close>, and the same for
  \<open>ul\<close>. \<open>li_run\<close> is the length of the longest run of items at the start of \<open>s\<close>: one
  item is the opening tag, the text up to the first \<open></li>\<close> and the white space behind
  it; the run ends where no further item starts.
\<close>

lemma index_of_bound: "index_of pat s = Some i \<Longrightarrow> i + length pat \<le> length s"
proof (induction s arbitrary: i)
  case Nil
  then show ?case by (simp split: if_splits)
next
  case (Cons c cs)
  show ?case
  proof (cases "prefix pat (c # cs)")
    case True
    with Cons.prems show ?thesis using prefix_length_le [of pat "c # cs"] by simp
  next
    case False
    with Cons.prems obtain j where "index_of pat cs = Some j" and "i = Suc j"
      by auto
    with Cons.IH show ?thesis by fastforce
  qed
qed

function li_run :: "string \<Rightarrow> string \<Rightarrow> nat" where
  "li_run opn s =
     (case lazy_between opn ''</li>'' s of
        Some (body, k) \<Rightarrow>
          (let n = k + length (takeWhile is_ws (drop k s)) in n + li_run opn (drop n s))
      | None \<Rightarrow> 0)"
  by pat_completeness auto
termination
proof (relation "measure (\<lambda>(opn, s). length s)")
  fix opn s :: string and x2 :: "string \<times> nat" and body :: string and k n :: nat
  assume m: "lazy_between opn ''</li>'' s = Some x2" and x2: "(body, k) = x2"
    and n: "n = k + length (takeWhile is_ws (drop k s))"
  from m x2 obtain i where "index_of ''</li>'' (drop (length opn) s) = Some i"
    and k: "k = length opn + i + length ''</li>''"
    by (auto simp: lazy_between_def split: if_splits option.splits)
  from index_of_bound [OF this(1)] have "5 \<le> length s" by simp
  moreover from k n have "0 < n" by simp
  ultimately show "((opn, drop n s), (opn, s)) \<in> measure (\<lambda>(opn, s). length s)"
    by simp
qed simp

declare li_run.simps [simp del]

definition list_re :: "string \<Rightarrow> string \<Rightarrow> matcher" where
  "list_re cls tag bol s =
     (let n = li_run (li_open cls) s in
      if n > 0 then Some (''<'' @ tag @ ''>'' @ take n s @ ''</'' @ tag @ ''>'', n) else None)"

text \<open>\<open>/\n\n+/g\<close> to \<open></p><p>\<close>.\<close>

definition paragraph_re :: matcher where
  "paragraph_re bol s =
     (let n = length (takeWhile (\<lambda>x. x = NL) s) in
      if n \<ge> 2 then Some (''</p><p>'', n) else None)"

text \<open>\<open>/<p>###TABLE(\d+)###<\/p>/g\<close> to \<open>###TABLE$1###\<close>.\<close>

definition p_marker_re :: matcher where
  "p_marker_re bol s =
     (if prefix ''<p>###TABLE'' s then
        (let digits = takeWhile is_digit (drop 11 s) in
         if digits \<noteq> [] \<and> prefix ''###</p>'' (drop (11 + length digits) s)
         then Some (''###TABLE'' @ digits @ ''###'', 11 + length digits + 7) else None)
      else None)"

text \<open>\<open>/<p>(<h[123]>)/g\<close> and \<open>/(<\/h[123]>)<\/p>/g\<close> to \<open>$1\<close>.\<close>

definition is_123 :: "char \<Rightarrow> bool" where
  "is_123 c \<longleftrightarrow> c = CHR ''1'' \<or> c = CHR ''2'' \<or> c = CHR ''3''"

definition p_h_re :: matcher where
  "p_h_re bol s =
     (case drop 5 s of
        c # g # _ \<Rightarrow>
          if prefix ''<p><h'' s \<and> is_123 c \<and> g = CHR ''>''
          then Some (''<h'' @ [c] @ ''>'', 7) else None
      | _ \<Rightarrow> None)"

definition h_p_re :: matcher where
  "h_p_re bol s =
     (case drop 3 s of
        c # r \<Rightarrow>
          if prefix ''</h'' s \<and> is_123 c \<and> prefix ''></p>'' r
          then Some (''</h'' @ [c] @ ''>'', 9) else None
      | _ \<Rightarrow> None)"

text \<open>\<open>/<p>\s*<\/p>/g\<close> to the empty string.\<close>

definition blank_p_re :: matcher where
  "blank_p_re bol s =
     (if prefix ''<p>'' s then
        (let n = length (takeWhile is_ws (drop 3 s)) in
         if prefix ''</p>'' (drop (3 + n) s) then Some ([], 3 + n + 4) else None)
      else None)"

section \<open>parseMarkdown\<close>

text \<open>
  The body of \<open>parseMarkdown\<close> is a sequence of statements \<open>html = html.replace(...)\<close>,
  each of which builds a new string from the one before. A sequence of such steps is a list
  of functions. \<open>run_steps L fs html\<close> performs them in order under the limit \<open>L\<close>: the step
  whose result is longer than \<open>L\<close> throws \<open>RangeError\<close>, and the steps behind it are not
  reached. \<open>apply_all fs html\<close> is the value of the last step where no step throws.
\<close>

type_synonym step = "string \<Rightarrow> string"

fun run_steps :: "nat \<Rightarrow> step list \<Rightarrow> string \<Rightarrow> exn + string" where
  "run_steps L [] html = Inr html"
| "run_steps L (f # fs) html =
     (let html' = f html in if length html' \<le> L then run_steps L fs html' else Inl RangeError)"

fun apply_all :: "step list \<Rightarrow> string \<Rightarrow> string" where
  "apply_all [] html = html"
| "apply_all (f # fs) html = apply_all fs (f html)"

text \<open>\<open>html.replace(/&/g, '&amp;').replace(/</g, '&lt;').replace(/>/g, '&gt;')\<close>.\<close>

definition escape_steps :: "step list" where
  "escape_steps =
     [replace_char (CHR ''&'') ''&amp;'',
      replace_char (CHR ''<'') ''&lt;'',
      replace_char (CHR ''>'') ''&gt;'']"

text \<open>The inline stages: code blocks, inline code, bold, italic with \<open>*\<close> and with \<open>_\<close>.\<close>

definition inline_steps :: "step list" where
  "inline_steps =
     [replace_all code_block_re,
      replace_all inline_code_re,
      replace_all bold_re,
      replace_all (italic_re (CHR ''*'')),
      replace_all (italic_re (CHR ''_''))]"

text \<open>The line stages: rules, block quotes, headers from level 3 down to 1, list items.\<close>

definition block_steps :: "step list" where
  "block_steps =
     [replace_all hr_re,
      replace_all blockquote_re,
      replace_all (header_re 3),
      replace_all (header_re 2),
      replace_all (header_re 1),
      replace_all ol_item_re,
      replace_all ul_item_re]"

text \<open>The runs of list items are wrapped and the \<open>class\<close> attributes taken out.\<close>

definition class_attr :: "string \<Rightarrow> string" where
  "class_attr cls = ''class='' @ [QUOTE] @ cls @ [QUOTE]"

definition list_steps :: "step list" where
  "list_steps =
     [replace_all (list_re ''ol-item'' ''ol''),
      replace_all (lit (class_attr ''ol-item'') []),
      replace_all (list_re ''ul-item'' ''ul''),
      replace_all (lit (class_attr ''ul-item'') [])]"

text \<open>
  The first \<open>tables.forEach\<close>: one \<open>replace\<close> for each table, in the order of \<open>tables\<close>,
  by which the escaped comment of the table becomes the marker \<open>###TABLEn###\<close> between two
  blank lines. The first argument is the index of the head of the list.
\<close>

definition escaped_placeholder :: "nat \<Rightarrow> string" where
  "escaped_placeholder n = ''&lt;!---TABLE-PLACEHOLDER-'' @ decimal n @ ''---&gt;''"

definition marker :: "nat \<Rightarrow> string" where
  "marker n = ''###TABLE'' @ decimal n @ ''###''"

fun marker_steps :: "nat \<Rightarrow> string list \<Rightarrow> step list" where
  "marker_steps index [] = []"
| "marker_steps index (table # rest) =
     replace_first (escaped_placeholder index) ([NL, NL] @ marker index @ [NL, NL])
       # marker_steps (Suc index) rest"

text \<open>Paragraphs: blank lines, single line breaks, and the outer \<open><p>\<close>.\<close>

definition paragraph_steps :: "step list" where
  "paragraph_steps =
     [replace_all paragraph_re,
      replace_char NL ''<br>'',
      \<lambda>html. ''<p>'' @ html @ ''</p>'']"

text \<open>The clean-up of \<open><p>\<close> and \<open></p>\<close> next to markers and block elements.\<close>

definition cleanup_steps :: "step list" where
  "cleanup_steps =
     [replace_all p_marker_re,
      replace_all p_h_re,
      replace_all h_p_re,
      replace_all (lit ''<p><hr></p>'' ''<hr>''),
      replace_all (lit ''<p><blockquote>'' ''<blockquote>''),
      replace_all (lit ''</blockquote></p>'' ''</blockquote>''),
      replace_all (lit ''<p><ul>'' ''<ul>''),
      replace_all (lit ''</ul></p>'' ''</ul>''),
      replace_all (lit ''<p><ol>'' ''<ol>''),
      replace_all (lit ''</ol></p>'' ''</ol>''),
      replace_all (lit ''<p><pre>'' ''<pre>''),
      replace_all (lit ''</pre></p>'' ''</pre>''),
      replace_all (lit ''<p></p>'' []),
      replace_all blank_p_re,
      replace_all (lit ''<p><br></p>'' [])]"

text \<open>
  The second \<open>tables.forEach\<close>: \<open>html.replace(`###TABLEn###`, table)\<close> for each table,
  where the stored table is the replacement template.
\<close>

fun table_steps :: "nat \<Rightarrow> string list \<Rightarrow> step list" where
  "table_steps index [] = []"
| "table_steps index (table # rest) =
     replace_first (marker index) table # table_steps (Suc index) rest"

text \<open>All the statements of the \<open>try\<close> block behind the protection of the tables.\<close>

definition steps :: "string list \<Rightarrow> step list" where
  "steps tables =
     escape_steps @ inline_steps @ block_steps @ list_steps @ marker_steps 0 tables
       @ paragraph_steps @ cleanup_steps @ table_steps 0 tables"

text \<open>
  The \<open>try\<close> block. An exception thrown by one of its statements is a value \<open>Inl\<close>. The
  call of \<open>parseTable\<close> throws nothing; the \<open>replace\<close> that protects the tables and every
  statement behind it throws when its result is longer than \<open>L\<close>.
\<close>

definition parseMarkdown_try :: "nat \<Rightarrow> string \<Rightarrow> exn + string" where
  "parseMarkdown_try L text =
     (let html = text;
          html = parseTable_guarded L html;
          (html, tables) = protect_tables [] html
      in if length html \<le> L then run_steps L (steps tables) html else Inl RangeError)"

text \<open>
  The \<open>catch\<close> block:
  \<open>return '<p>' + text.replace(/</g, '&lt;').replace(/>/g, '&gt;') + '</p>'\<close>. Its
  statements build strings like those of the \<open>try\<close> block, and what they throw goes to the
  caller.
\<close>

definition catch_steps :: "step list" where
  "catch_steps =
     [replace_char (CHR ''<'') ''&lt;'',
      replace_char (CHR ''>'') ''&gt;'',
      \<lambda>html. ''<p>'' @ html @ ''</p>'']"

definition parseMarkdown_catch :: "nat \<Rightarrow> string \<Rightarrow> exn \<Rightarrow> exn + string" where
  "parseMarkdown_catch L text error = run_steps L catch_steps text"

text \<open>
  \<open>try { ... } catch (error) { ... }\<close> around a block \<open>body\<close>, and \<open>parseMarkdown\<close>
  itself, where the block is \<open>parseMarkdown_try\<close>. The value \<open>Inr html\<close> is the string
  returned to the caller, \<open>Inl error\<close> an exception thrown to the caller.
\<close>

definition try_catch :: "nat \<Rightarrow> (string \<Rightarrow> exn + string) \<Rightarrow> string \<Rightarrow> exn + string" where
  "try_catch L body text =
     (case body text of Inr html \<Rightarrow> Inr html | Inl error \<Rightarrow> parseMarkdown_catch L text error)"

definition parseMarkdown :: "nat \<Rightarrow> string \<Rightarrow> exn + string" where
  "parseMarkdown L text = try_catch L (parseMarkdown_try L) text"

text \<open>
  The values of the groups of statements where nothing is thrown, as functions of the text.
\<close>

definition escape_html :: "string \<Rightarrow> string" where
  "escape_html html = apply_all escape_steps html"

definition inline_markup :: "string \<Rightarrow> string" where
  "inline_markup html = apply_all inline_steps html"

definition block_markup :: "string \<Rightarrow> string" where
  "block_markup html = apply_all block_steps html"

definition wrap_lists :: "string \<Rightarrow> string" where
  "wrap_lists html = apply_all list_steps html"

definition restore_markers :: "nat \<Rightarrow> string list \<Rightarrow> string \<Rightarrow> string" where
  "restore_markers index tables html = apply_all (marker_steps index tables) html"

definition paragraphs :: "string \<Rightarrow> string" where
  "paragraphs html = apply_all paragraph_steps html"

definition cleanup :: "string \<Rightarrow> string" where
  "cleanup html = apply_all cleanup_steps html"

definition restore_tables :: "nat \<Rightarrow> string list \<Rightarrow> string \<Rightarrow> string" where
  "restore_tables index tables html = apply_all (table_steps index tables) html"

text \<open>
  The other version of the renderer, in \<open>script.js\<close>, has two bold stages, one for \<open>**\<close> and
  one for \<open>__\<close> (\<open>/__([^_]+)__/g\<close> to \<open><strong>$1</strong>\<close>); they are followed there by
  the same two italic stages.
\<close>

definition bold_underscore_re :: matcher where
  "bold_underscore_re bol s =
     map_option (\<lambda>(body, k). (''<strong>'' @ body @ ''</strong>'', k))
       (delimited ''__'' (CHR ''_'') s)"

definition script_js_emphasis :: "string \<Rightarrow> string" where
  "script_js_emphasis html =
     (let html = replace_all bold_re html;
          html = replace_all bold_underscore_re html;
          html = replace_all (italic_re (CHR ''*'')) html;
          html = replace_all (italic_re (CHR ''_'')) html
      in html)"

section \<open>Notions used in the statements\<close>

text \<open>
  The HTML of one data row as the specification describes it: one \<open><td>\<close> per cell between
  \<open><tr>\<close> and \<open></tr>\<close>, and nothing for a row without cells.
\<close>

definition row_html :: "string \<Rightarrow> string" where
  "row_html row =
     (if cells row = [] then []
      else ''<tr>'' @ concat (map (\<lambda>c. ''<td>'' @ c @ ''</td>'') (cells row)) @ ''</tr>'')"

text \<open>
  The lines of a text, cut into segments: a line that is kept, or a run of lines that
  becomes one table. A table segment is sound when its lines all contain a pipe and pass the
  test of \<open>parseTable\<close>.
\<close>

datatype segment = Plain string | Table "string list"

fun seg_lines :: "segment \<Rightarrow> string list" where
  "seg_lines (Plain l) = [l]"
| "seg_lines (Table run) = run"

fun seg_out :: "segment \<Rightarrow> string" where
  "seg_out (Plain l) = l"
| "seg_out (Table run) = table_html (map trim run)"

fun seg_ok :: "segment \<Rightarrow> bool" where
  "seg_ok (Plain l) = True"
| "seg_ok (Table run) =
     (valid_table (map trim run) \<and> list_all (\<lambda>l. has_pipe (trim l)) run)"

text \<open>
  A text that alternates plain pieces and inserted items and ends with a plain piece:
  \<open>weave [(t1, x1), (t2, x2)] rest\<close> is \<open>t1 x1 t2 x2 rest\<close>.
\<close>

fun weave :: "(string \<times> string) list \<Rightarrow> string \<Rightarrow> string" where
  "weave [] rest = rest"
| "weave ((t, x) # r) rest = t @ x @ weave r rest"

section \<open>Lines, split and join\<close>

lemma split_from_not_Nil: "split_from d cur s \<noteq> []"
  by (induction s arbitrary: cur) simp_all

lemma join_Cons: "xs \<noteq> [] \<Longrightarrow> join sep (x # xs) = x @ sep @ join sep xs"
  by (cases xs) simp_all

lemma join_split_from: "join [d] (split_from d cur s) = cur @ s"
  by (induction s arbitrary: cur) (simp_all add: join_Cons split_from_not_Nil)

lemma join_split: "join [d] (split d s) = s"
  by (simp add: split_def join_split_from)

lemma split_from_line: "d \<notin> set xs \<Longrightarrow> split_from d cur (xs @ s) = split_from d (cur @ xs) s"
  by (induction xs arbitrary: cur) auto

lemma split_from_join:
  "\<forall>l\<in>set (x # ls). d \<notin> set l \<Longrightarrow> split_from d cur (join [d] (x # ls)) = (cur @ x) # ls"
proof (induction ls arbitrary: cur x)
  case Nil
  then show ?case using split_from_line [of d x cur "[]"] by simp
next
  case (Cons y ys)
  from Cons.prems have "split_from d [] (join [d] (y # ys)) = ([] @ y) # ys"
    by (intro Cons.IH) simp
  with Cons.prems show ?case
    using split_from_line [of d x cur "d # join [d] (y # ys)"] by simp
qed

lemma split_join: "ls \<noteq> [] \<Longrightarrow> \<forall>l\<in>set ls. d \<notin> set l \<Longrightarrow> split d (join [d] ls) = ls"
  by (cases ls) (simp_all add: split_def split_from_join)

lemma set_split_from: "l \<in> set (split_from d cur s) \<Longrightarrow> set l \<subseteq> set cur \<union> set s"
proof (induction s arbitrary: cur)
  case Nil
  then show ?case by simp
next
  case (Cons c cs)
  show ?case
  proof (cases "c = d")
    case True
    with Cons.prems have "l = cur \<or> l \<in> set (split_from d [] cs)" by simp
    with Cons.IH [of "[]"] show ?thesis by auto
  next
    case False
    with Cons.prems have "l \<in> set (split_from d (cur @ [c]) cs)" by simp
    with Cons.IH [of "cur @ [c]"] show ?thesis by auto
  qed
qed

lemma set_trim: "set (trim l) \<subseteq> set l"
  by (auto simp: trim_def dest!: set_dropWhileD)

lemma pipe_line_has_pipe: "has_pipe (trim l) \<Longrightarrow> has_pipe l"
  using set_trim [of l] by (auto simp: has_pipe_def)

section \<open>The table of a run\<close>

lemma add_th_concat: "add_th html cs = html @ concat (map (\<lambda>c. ''<th>'' @ c @ ''</th>'') cs)"
  unfolding add_th_def by (induction cs arbitrary: html) simp_all

lemma add_td_concat: "add_td html cs = html @ concat (map (\<lambda>c. ''<td>'' @ c @ ''</td>'') cs)"
  unfolding add_td_def by (induction cs arbitrary: html) simp_all

lemma add_row_concat: "add_row html row = html @ row_html row"
  by (simp add: add_row_def row_html_def add_td_concat Let_def)

lemma add_rows_concat: "foldl add_row html rows = html @ concat (map row_html rows)"
  by (induction rows arbitrary: html) (simp_all add: add_row_concat)

lemma table_html_concat:
  "table_html tableLines =
     table_open @ ''<thead><tr>''
       @ concat (map (\<lambda>c. ''<th>'' @ c @ ''</th>'') (cells (tableLines ! 0)))
       @ ''</tr></thead><tbody>'' @ concat (map row_html (drop 2 tableLines))
       @ ''</tbody></table>''"
  by (simp add: table_html_def Let_def add_th_concat add_rows_concat)

section \<open>The line loop of parseTable\<close>

text \<open>
  The outer loop as a function of the lines from \<open>i\<close> on: what it appends to \<open>result\<close>
  from there. The inner loop takes the longest run of pipe lines at the start.
\<close>

abbreviation pipe_line :: "string \<Rightarrow> bool" where
  "pipe_line l \<equiv> has_pipe (trim l)"

function parseTable_loop :: "string list \<Rightarrow> string list" where
  "parseTable_loop [] = []"
| "parseTable_loop (l # ls) =
     (if pipe_line l then
        (let tableLines = map trim (takeWhile pipe_line (l # ls)) in
         if valid_table tableLines
         then table_html tableLines # parseTable_loop (dropWhile pipe_line (l # ls))
         else l # parseTable_loop ls)
      else l # parseTable_loop ls)"
  by pat_completeness auto
termination
proof (relation "measure length")
  fix l :: string and ls :: "string list"
  assume "pipe_line l"
  then have "length (dropWhile pipe_line (l # ls)) \<le> length ls"
    by (simp add: length_dropWhile_le)
  then show "(dropWhile pipe_line (l # ls), l # ls) \<in> measure length"
    by simp
qed auto

declare parseTable_loop.simps(2) [simp del]

lemma collect_eq:
  "j \<le> length lines \<Longrightarrow>
   collect lines j tableLines =
     (j + length (takeWhile pipe_line (drop j lines)),
      tableLines @ map trim (takeWhile pipe_line (drop j lines)))"
proof (induction lines j tableLines rule: collect.induct)
  case (1 lines j tableLines)
  show ?case
  proof (cases "j < length lines")
    case True
    then have d: "drop j lines = lines ! j # drop (Suc j) lines"
      by (simp add: Cons_nth_drop_Suc)
    show ?thesis
    proof (cases "has_pipe (trim (lines ! j))")
      case p: True
      with True "1.IH" have "collect lines (j + 1) (tableLines @ [trim (lines ! j)]) =
          (j + 1 + length (takeWhile pipe_line (drop (j + 1) lines)),
           (tableLines @ [trim (lines ! j)])
             @ map trim (takeWhile pipe_line (drop (j + 1) lines)))"
        by simp
      with True p show ?thesis
        by (subst collect.simps) (simp add: d)
    next
      case False
      with True show ?thesis
        by (subst collect.simps) (simp add: d)
    qed
  next
    case False
    with "1.prems" show ?thesis
      by (subst collect.simps) simp
  qed
qed

lemma while_eq:
  "parseTable_while lines i result = result @ parseTable_loop (drop i lines)"
proof (induction lines i result rule: parseTable_while.induct)
  case (1 lines i result)
  show ?case
  proof (cases "i < length lines")
    case False
    then show ?thesis by (subst parseTable_while.simps) simp
  next
    case True
    then have d: "drop i lines = lines ! i # drop (Suc i) lines"
      by (simp add: Cons_nth_drop_Suc)
    let ?run = "takeWhile pipe_line (drop i lines)"
    from True have c: "collect lines i [] = (i + length ?run, map trim ?run)"
      by (simp add: collect_eq)
    show ?thesis
    proof (cases "pipe_line (lines ! i)")
      case False
      with True "1.IH"(3) have "parseTable_while lines (i + 1) (result @ [lines ! i])
          = (result @ [lines ! i]) @ parseTable_loop (drop (i + 1) lines)"
        by simp
      with True False show ?thesis
        by (subst parseTable_while.simps) (simp add: d parseTable_loop.simps(2))
    next
      case p: True
      have "parseTable_loop (lines ! i # drop (Suc i) lines) =
          (if valid_table (map trim (takeWhile pipe_line (lines ! i # drop (Suc i) lines)))
           then table_html (map trim (takeWhile pipe_line (lines ! i # drop (Suc i) lines)))
             # parseTable_loop (dropWhile pipe_line (lines ! i # drop (Suc i) lines))
           else lines ! i # parseTable_loop (drop (Suc i) lines))"
        using p
        by (simp add: parseTable_loop.simps(2) Let_def del: takeWhile.simps dropWhile.simps)
      then have L: "parseTable_loop (drop i lines) =
          (if valid_table (map trim ?run)
           then table_html (map trim ?run) # parseTable_loop (dropWhile pipe_line (drop i lines))
           else lines ! i # parseTable_loop (drop (Suc i) lines))"
        by (simp only: d [symmetric])
      have W: "parseTable_while lines i result =
          (if valid_table (map trim ?run)
           then parseTable_while lines (i + length ?run) (result @ [table_html (map trim ?run)])
           else parseTable_while lines (i + 1) (result @ [lines ! i]))"
        using True p by (subst parseTable_while.simps) (simp add: c Let_def)
      show ?thesis
      proof (cases "valid_table (map trim ?run)")
        case v: True
        have "parseTable_while lines (i + length ?run) (result @ [table_html (map trim ?run)])
          = (result @ [table_html (map trim ?run)])
              @ parseTable_loop (drop (i + length ?run) lines)"
          using v by (intro "1.IH"(1) [OF True refl p c [symmetric] refl])
        moreover have "drop (i + length ?run) lines = dropWhile pipe_line (drop i lines)"
          by (metis add.commute drop_drop dropWhile_eq_drop)
        ultimately show ?thesis
          using v by (simp add: W L)
      next
        case v: False
        have "parseTable_while lines (i + 1) (result @ [lines ! i])
          = (result @ [lines ! i]) @ parseTable_loop (drop (i + 1) lines)"
          using v by (intro "1.IH"(2) [OF True refl p c [symmetric] refl])
        then show ?thesis
          using v by (simp add: W L)
      qed
    qed
  qed
qed

lemma parseTable_lines: "parseTable text = join [NL] (parseTable_loop (split NL text))"
  by (simp add: parseTable_def while_eq)

lemma takeWhile_run:
  assumes "\<forall>l\<in>set run. P l" and "rest = [] \<or> \<not> P (hd rest)"
  shows "takeWhile P (run @ rest) = run" and "dropWhile P (run @ rest) = rest"
proof -
  from assms(2) have t: "takeWhile P rest = []" and d: "dropWhile P rest = rest"
    by (cases rest; simp)+
  from assms(1) show "takeWhile P (run @ rest) = run"
    by (simp add: t)
  from assms(1) show "dropWhile P (run @ rest) = rest"
    by (simp add: d)
qed

text \<open>
  One step of the loop at the first line of a run of pipe lines that ends at \<open>rest\<close>: the
  whole run becomes a table when it passes the test, and otherwise its first line is kept and
  the loop goes on at its second line.
\<close>

lemma loop_run:
  assumes "run \<noteq> []" and "\<forall>l\<in>set run. pipe_line l" and "rest = [] \<or> \<not> pipe_line (hd rest)"
  shows "parseTable_loop (run @ rest) =
     (if valid_table (map trim run) then table_html (map trim run) # parseTable_loop rest
      else hd run # parseTable_loop (tl run @ rest))"
proof -
  from assms(1) obtain l ls where run: "run = l # ls" by (cases run) auto
  with assms(2) have pl: "pipe_line l" by simp
  have tw: "takeWhile pipe_line (l # ls @ rest) = run" "dropWhile pipe_line (l # ls @ rest) = rest"
    using takeWhile_run [OF assms(2,3)] run by simp_all
  show ?thesis
    using pl tw
    by (simp add: run parseTable_loop.simps(2) Let_def del: takeWhile.simps dropWhile.simps)
qed

lemma loop_plain:
  "\<forall>l\<in>set pre. \<not> pipe_line l \<Longrightarrow> parseTable_loop (pre @ ls) = pre @ parseTable_loop ls"
  by (induction pre) (simp_all add: parseTable_loop.simps(2))

lemma loop_all_plain: "\<forall>l\<in>set ls. \<not> pipe_line l \<Longrightarrow> parseTable_loop ls = ls"
  using loop_plain [of ls "[]"] by simp

lemma parseTable_no_pipe:
  assumes "CHR ''|'' \<notin> set text"
  shows "parseTable text = text"
proof -
  have "\<forall>l\<in>set (split NL text). \<not> pipe_line l"
  proof
    fix l assume "l \<in> set (split NL text)"
    then have "set l \<subseteq> set text"
      using set_split_from [of l NL "[]" "text"] by (simp add: split_def)
    with assms have "\<not> has_pipe l" by (auto simp: has_pipe_def)
    then show "\<not> pipe_line l" using pipe_line_has_pipe by blast
  qed
  then have "parseTable_loop (split NL text @ []) = split NL text @ parseTable_loop []"
    by (rule loop_plain)
  then show ?thesis by (simp add: parseTable_lines join_split)
qed

lemma loop_segments:
  "\<exists>segs. ls = concat (map seg_lines segs) \<and> parseTable_loop ls = map seg_out segs
     \<and> list_all seg_ok segs"
proof (induction ls rule: parseTable_loop.induct)
  case 1
  have "[] = concat (map seg_lines []) \<and> parseTable_loop [] = map seg_out []
      \<and> list_all seg_ok []"
    by simp
  then show ?case by blast
next
  case (2 l ls)
  let ?run = "takeWhile pipe_line (l # ls)"
  show ?case
  proof (cases "pipe_line l \<and> valid_table (map trim ?run)")
    case True
    with "2.IH"(1) obtain segs where
      segs: "dropWhile pipe_line (l # ls) = concat (map seg_lines segs)"
        "parseTable_loop (dropWhile pipe_line (l # ls)) = map seg_out segs" "list_all seg_ok segs"
      by blast
    have "l # ls = ?run @ dropWhile pipe_line (l # ls)"
      by (simp only: takeWhile_dropWhile_id)
    also have "\<dots> = concat (map seg_lines (Table ?run # segs))"
      by (simp only: segs(1) list.map concat.simps seg_lines.simps)
    finally have a: "l # ls = concat (map seg_lines (Table ?run # segs))" .
    from True segs(2) have b: "parseTable_loop (l # ls) = map seg_out (Table ?run # segs)"
      by (simp add: parseTable_loop.simps(2) Let_def del: takeWhile.simps dropWhile.simps)
    have "list_all pipe_line ?run"
      unfolding list_all_iff by (metis set_takeWhileD)
    with True segs(3) have c: "list_all seg_ok (Table ?run # segs)"
      by (simp del: takeWhile.simps)
    from a b c show ?thesis by blast
  next
    case False
    then have rec: "parseTable_loop (l # ls) = l # parseTable_loop ls"
      by (auto simp: parseTable_loop.simps(2) Let_def simp del: takeWhile.simps)
    from False "2.IH"(2,3) obtain segs where
      segs: "ls = concat (map seg_lines segs)" "parseTable_loop ls = map seg_out segs"
        "list_all seg_ok segs"
      by (metis (full_types))
    with rec have "l # ls = concat (map seg_lines (Plain l # segs))
        \<and> parseTable_loop (l # ls) = map seg_out (Plain l # segs)
        \<and> list_all seg_ok (Plain l # segs)"
      by simp
    then show ?thesis by blast
  qed
qed

section \<open>The statements under the limit\<close>

lemma restore_markers_simps [simp]:
  "restore_markers index [] html = html"
  "restore_markers index (table # rest) html =
     restore_markers (Suc index) rest
       (replace_first (escaped_placeholder index) ([NL, NL] @ marker index @ [NL, NL]) html)"
  by (simp_all add: restore_markers_def)

lemma restore_tables_simps [simp]:
  "restore_tables index [] html = html"
  "restore_tables index (table # rest) html =
     restore_tables (Suc index) rest (replace_first (marker index) table html)"
  by (simp_all add: restore_tables_def)

lemma apply_all_append: "apply_all (fs @ gs) html = apply_all gs (apply_all fs html)"
  by (induction fs arbitrary: html) simp_all

text \<open>The steps behind the protection, as the composition of the groups.\<close>

lemma apply_all_steps:
  "apply_all (steps tables) html =
     restore_tables 0 tables (cleanup (paragraphs (restore_markers 0 tables
       (wrap_lists (block_markup (inline_markup (escape_html html)))))))"
  by (simp add: steps_def apply_all_append escape_html_def inline_markup_def block_markup_def
      wrap_lists_def restore_markers_def paragraphs_def cleanup_def restore_tables_def)

text \<open>What a sequence of steps returns is the value of its last step.\<close>

lemma run_value: "run_steps L fs html = Inr h \<Longrightarrow> h = apply_all fs html"
  by (induction fs arbitrary: html) (auto simp: Let_def split: if_splits)

text \<open>A sequence of steps that returns under a limit returns the same under a greater one.\<close>

lemma run_mono: "run_steps K fs html = Inr h \<Longrightarrow> run_steps (K + d) fs html = Inr h"
proof (induction fs arbitrary: html)
  case Nil
  then show ?case by simp
next
  case (Cons f fs)
  from Cons.prems have "length (f html) \<le> K" and "run_steps K fs (f html) = Inr h"
    by (auto simp: Let_def split: if_splits)
  with Cons.IH [of "f html"] show ?case by (simp add: Let_def)
qed

lemma parseMarkdown_try_mono:
  assumes "length (parseTable text) \<le> K" and "parseMarkdown_try K text = Inr h"
  shows "parseMarkdown_try (K + d) text = Inr h"
proof -
  obtain html tables where p: "protect_tables [] (parseTable text) = (html, tables)"
    by (cases "protect_tables [] (parseTable text)")
  from assms(1) have g: "parseTable_guarded K text = parseTable text"
    "parseTable_guarded (K + d) text = parseTable text"
    by (simp_all add: parseTable_guarded_def)
  from assms(2) have "length html \<le> K" and "run_steps K (steps tables) html = Inr h"
    by (auto simp: parseMarkdown_try_def g p Let_def split: if_splits)
  with run_mono [of K "steps tables" html h d] show ?thesis
    by (simp add: parseMarkdown_try_def g p Let_def)
qed

text \<open>
  The form in which the results at concrete inputs are stated: the text is rendered under
  the limit \<open>K\<close>, and so under every limit from \<open>K\<close> on.
\<close>

lemma parseMarkdown_from:
  assumes "length (parseTable text) \<le> K" and "parseMarkdown_try K text = Inr h"
  shows "parseMarkdown (K + d) text = Inr h"
  using parseMarkdown_try_mono [OF assms, of d] by (simp add: parseMarkdown_def try_catch_def)

text \<open>The same under the limit of V8.\<close>

lemma parseMarkdown_v8:
  assumes "length (parseTable text) \<le> 256" and "parseMarkdown_try 256 text = Inr h"
  shows "parseMarkdown (2 ^ 29 - 24) text = Inr h"
proof -
  have "(2::nat) ^ 29 - 24 = 256 + (2 ^ 29 - 280)" by simp
  with parseMarkdown_from [OF assms, of "2 ^ 29 - 280"] show ?thesis by (simp only:)
qed

lemma replace_char_absent: "c \<notin> set s \<Longrightarrow> replace_char c rep s = s"
  by (induction s) (auto simp: replace_char_def)

lemma replace_char_replicate: "replace_char c rep (replicate n c) = concat (replicate n rep)"
  by (induction n) (simp_all add: replace_char_def)

lemma length_concat_replicate: "length (concat (replicate n rep)) = n * length rep"
  by (induction n) simp_all

lemma table_re_needs_t: "table_re s = Some k \<Longrightarrow> CHR ''t'' \<in> set s"
  by (auto simp: table_re_def lazy_between_def table_open_def prefix_def split: if_splits)

lemma protect_none: "CHR ''t'' \<notin> set s \<Longrightarrow> protect_tables ts s = (s, ts)"
proof (induction s)
  case Nil
  show ?case by simp
next
  case (Cons c cs)
  then have "table_re (c # cs) = None"
    using table_re_needs_t [of "c # cs"] by (cases "table_re (c # cs)") auto
  with Cons show ?case by simp
qed

section \<open>Placeholders\<close>

lemma index_of_take:
  "index_of p r = Some i \<Longrightarrow> index_of p (take (i + length p) r) = Some i"
proof (induction r arbitrary: i)
  case Nil
  then show ?case by (simp split: if_splits)
next
  case (Cons c cs)
  show ?case
  proof (cases "prefix p (c # cs)")
    case True
    with Cons.prems have i: "i = 0" by simp
    from True have "take (length p) (c # cs) = p"
      by (metis append_eq_conv_conj prefix_def)
    then have "index_of p (take (length p) (c # cs)) = Some 0"
      by (cases p) simp_all
    with i show ?thesis by simp
  next
    case False
    with Cons.prems obtain j where j: "index_of p cs = Some j" and i: "i = Suc j"
      by auto
    have "prefix (c # take (j + length p) cs) (c # cs)"
      by (simp add: take_is_prefix)
    with False have "\<not> prefix p (c # take (j + length p) cs)"
      using prefix_order.trans by blast
    with Cons.IH [OF j] i show ?thesis by simp
  qed
qed

text \<open>The text that a lazy match covers is matched as a whole, from its start to its end.\<close>

lemma lazy_between_take:
  assumes "lazy_between opn cls s = Some (body, k)"
  shows "lazy_between opn cls (take k s) = Some (body, k)" and "k \<le> length s"
    and "length opn + length cls \<le> k"
proof -
  let ?r = "drop (length opn) s"
  from assms obtain i where p: "prefix opn s"
    and i: "index_of cls ?r = Some i"
    and k: "k = length opn + i + length cls" and b: "body = take i ?r"
    by (auto simp: lazy_between_def split: if_splits option.splits)
  from k show "length opn + length cls \<le> k" by simp
  from index_of_bound [OF i] k p show "k \<le> length s"
    by (auto simp: prefix_def)
  from p k have p': "prefix opn (take k s)"
    by (auto simp: prefix_def)
  have d: "drop (length opn) (take k s) = take (i + length cls) ?r"
    by (simp add: k drop_take add.assoc)
  have "index_of cls (drop (length opn) (take k s)) = Some i"
    unfolding d using i by (rule index_of_take)
  moreover have "take i (drop (length opn) (take k s)) = body"
    unfolding d b by (simp add: min_def)
  ultimately show "lazy_between opn cls (take k s) = Some (body, k)"
    using p' k by (simp add: lazy_between_def)
qed

lemma table_re_take:
  assumes "table_re s = Some k"
  shows "table_re (take k s) = Some k" and "0 < k" and "k \<le> length s"
proof -
  from assms obtain body where l: "lazy_between table_open ''</table>'' s = Some (body, k)"
    by (auto simp: table_re_def)
  from lazy_between_take(1) [OF l] show "table_re (take k s) = Some k"
    by (simp add: table_re_def)
  from lazy_between_take(3) [OF l] show "0 < k" by simp
  from lazy_between_take(2) [OF l] show "k \<le> length s" .
qed

lemma of_char_digit: "n < 10 \<Longrightarrow> of_char (digit n) = 48 + n"
  by (simp add: digit_def)

lemma digit_inj:
  assumes "m < 10" and "n < 10" and "digit m = digit n"
  shows "m = n"
proof -
  from assms(3) have "(of_char (digit m) :: nat) = of_char (digit n)"
    by (rule arg_cong)
  then have "48 + m = 48 + n"
    by (simp only: of_char_digit [OF assms(1)] of_char_digit [OF assms(2)])
  then show ?thesis by simp
qed

lemma decimal_not_Nil: "decimal n \<noteq> []"
  by (subst decimal.simps) simp

lemma decimal_inj: "decimal m = decimal n \<Longrightarrow> m = n"
proof (induction n arbitrary: m rule: decimal.induct)
  case (1 n)
  show ?case
  proof (cases "n < 10")
    case n: True
    show ?thesis
    proof (cases "m < 10")
      case True
      with n "1.prems" show ?thesis
        by (simp add: decimal.simps [of m] decimal.simps [of n] digit_inj)
    next
      case False
      with n "1.prems" decimal_not_Nil [of "m div 10"] show ?thesis
        by (simp add: decimal.simps [of m] decimal.simps [of n])
    qed
  next
    case n: False
    show ?thesis
    proof (cases "m < 10")
      case True
      with n "1.prems" decimal_not_Nil [of "n div 10"] show ?thesis
        by (simp add: decimal.simps [of m] decimal.simps [of n])
    next
      case False
      with n "1.prems" have "decimal (m div 10) = decimal (n div 10)"
        and "digit (m mod 10) = digit (n mod 10)"
        by (simp_all add: decimal.simps [of m] decimal.simps [of n])
      with "1.IH" [OF n] have "m div 10 = n div 10" and "m mod 10 = n mod 10"
        by (simp_all add: digit_inj)
      then show ?thesis by (metis div_mult_mod_eq)
    qed
  qed
qed

lemma placeholder_inj: "placeholder m = placeholder n \<Longrightarrow> m = n"
  by (simp add: placeholder_def decimal_inj)

lemma upt_shift: "[n ..< n + Suc k] = n # [Suc n ..< Suc n + k]"
proof -
  have "n < n + Suc k" by simp
  then have "[n ..< n + Suc k] = n # [Suc n ..< n + Suc k]" by (rule upt_conv_Cons)
  then show ?thesis by (simp only: add_Suc add_Suc_right)
qed

text \<open>A text is a match of the table expression when the expression matches all of it.\<close>

abbreviation table_match :: "string \<Rightarrow> bool" where
  "table_match t \<equiv> table_re t = Some (length t)"

lemma protect_weave:
  "protect_tables tables s = (html, tables') \<Longrightarrow>
   \<exists>texts found rest. length texts = length found \<and> tables' = tables @ found
      \<and> list_all table_match found
      \<and> s = weave (zip texts found) rest
      \<and> html = weave (zip texts
            (map placeholder [length tables ..< length tables + length found])) rest"
proof (induction tables s arbitrary: html tables' rule: protect_tables.induct)
  case (1 tables)
  then have "length [] = length ([]::string list) \<and> tables' = tables @ []
      \<and> list_all table_match []
      \<and> [] = weave (zip [] []) []
      \<and> html = weave (zip []
            (map placeholder [length tables ..< length tables + length ([]::string list)])) []"
    by simp
  then show ?case by blast
next
  case (2 tables c cs)
  show ?case
  proof (cases "table_re (c # cs)")
    case None
    with "2.prems" obtain h where r: "protect_tables tables cs = (h, tables')"
      and h: "html = c # h"
      by (auto split: prod.splits)
    from "2.IH"(1) [OF None r] obtain texts found rest where
      f: "length texts = length found" "tables' = tables @ found"
        "list_all table_match found"
        "cs = weave (zip texts found) rest"
        "h = weave (zip texts
            (map placeholder [length tables ..< length tables + length found])) rest"
      by blast
    show ?thesis
    proof (cases texts)
      case Nil
      with f h have "length [] = length ([]::string list) \<and> tables' = tables @ []
        \<and> list_all table_match []
        \<and> c # cs = weave (zip [] []) (c # rest)
        \<and> html = weave (zip []
            (map placeholder [length tables ..< length tables + length ([]::string list)]))
            (c # rest)"
        by simp
      then show ?thesis by blast
    next
      case (Cons t ts)
      with f(1) obtain x xs where found: "found = x # xs" by (cases found) auto
      from f h Cons found have "length ((c # t) # ts) = length found
        \<and> tables' = tables @ found
        \<and> list_all table_match found
        \<and> c # cs = weave (zip ((c # t) # ts) found) rest
        \<and> html = weave (zip ((c # t) # ts)
            (map placeholder [length tables ..< length tables + length found])) rest"
        by (simp add: upt_rec)
      then show ?thesis by blast
    qed
  next
    case (Some k)
    let ?m = "c # take (k - 1) cs"
    from table_re_take [OF Some] have m: "?m = take k (c # cs)" and "length ?m = k"
      by (simp_all add: take_Cons')
    with table_re_take(1) [OF Some] have tm: "table_match ?m"
      by simp
    from Some "2.prems" obtain h where
      r: "protect_tables (tables @ [?m]) (drop (k - 1) cs) = (h, tables')"
      and h: "html = placeholder (length tables) @ h"
      by (auto simp: Let_def split: prod.splits)
    from "2.IH"(2) [OF Some refl r] obtain texts found rest where
      f: "length texts = length found" "tables' = (tables @ [?m]) @ found"
        "list_all table_match found"
        "drop (k - 1) cs = weave (zip texts found) rest"
        "h = weave (zip texts (map placeholder
            [length (tables @ [?m]) ..< length (tables @ [?m]) + length found])) rest"
      by blast
    have cs: "c # cs = ?m @ drop (k - 1) cs" by simp
    have u: "[length tables ..< length tables + length (?m # found)]
        = length tables # [length (tables @ [?m]) ..< length (tables @ [?m]) + length found]"
      using upt_shift [of "length tables" "length found"] by (simp del: upt_Suc)
    from f h cs tm have "length ([] # texts) = length (?m # found)
        \<and> tables' = tables @ (?m # found)
        \<and> list_all table_match (?m # found)
        \<and> c # cs = weave (zip ([] # texts) (?m # found)) rest
        \<and> html = weave (zip ([] # texts)
            (map placeholder [length tables ..< length tables + length (?m # found)])) rest"
      unfolding u by simp
    then show ?thesis by blast
  qed
qed

text \<open>
  \<open>replace\<close> with a string pattern whose first character does not occur in front of it,
  and a template without \<open>$\<close>.
\<close>

lemma expand_no_dollar: "CHR ''$'' \<notin> set t \<Longrightarrow> expand m b a t = t"
  by (induction m b a t rule: expand.induct) auto

lemma index_of_at:
  "p \<noteq> [] \<Longrightarrow> hd p \<notin> set xs \<Longrightarrow> index_of p (xs @ p @ ys) = Some (length xs)"
proof (induction xs)
  case Nil
  then show ?case by (cases p) simp_all
next
  case (Cons x xs)
  then have "\<not> prefix p (x # xs @ p @ ys)"
    by (cases p) auto
  with Cons show ?case by simp
qed

lemma replace_first_at:
  assumes "p \<noteq> []" and "hd p \<notin> set xs" and "CHR ''$'' \<notin> set t"
  shows "replace_first p t (xs @ p @ ys) = xs @ t @ ys"
  by (simp add: replace_first_def index_of_at [OF assms(1,2)] expand_no_dollar [OF assms(3)])

lemma hd_marker: "marker n \<noteq> []" "hd (marker n) = CHR ''#''"
  by (simp_all add: marker_def)

lemma restore_tables_weave:
  assumes "length texts = length ts" and "CHR ''#'' \<notin> set pre"
    and "\<forall>t\<in>set texts. CHR ''#'' \<notin> set t"
    and "\<forall>t\<in>set ts. CHR ''#'' \<notin> set t \<and> CHR ''$'' \<notin> set t"
  shows "restore_tables n ts (pre @ weave (zip texts (map marker [n ..< n + length ts])) rest)
     = pre @ weave (zip texts ts) rest"
  using assms
proof (induction ts arbitrary: texts n pre)
  case Nil
  then show ?case by simp
next
  case (Cons x ts)
  from Cons.prems(1) obtain t0 texts' where texts: "texts = t0 # texts'"
    and len: "length texts' = length ts"
    by (cases texts) auto
  let ?W = "weave (zip texts' (map marker [Suc n ..< Suc n + length ts])) rest"
  have html: "pre @ weave (zip texts (map marker [n ..< n + length (x # ts)])) rest
      = (pre @ t0) @ marker n @ ?W"
    using upt_shift [of n "length ts"] by (simp add: texts del: upt_Suc)
  from Cons.prems(2,3) texts have h: "hd (marker n) \<notin> set (pre @ t0)"
    by (simp add: hd_marker)
  from Cons.prems(4) have d: "CHR ''$'' \<notin> set x" by simp
  have "replace_first (marker n) x ((pre @ t0) @ marker n @ ?W) = (pre @ t0) @ x @ ?W"
    using hd_marker(1) h d by (rule replace_first_at)
  then have "restore_tables n (x # ts)
        (pre @ weave (zip texts (map marker [n ..< n + length (x # ts)])) rest)
      = restore_tables (Suc n) ts ((pre @ t0 @ x) @ ?W)"
    by (simp only: html restore_tables_simps append_assoc)
  also have "\<dots> = (pre @ t0 @ x) @ weave (zip texts' ts) rest"
    using len Cons.prems(2,3,4) texts by (intro Cons.IH) simp_all
  finally show ?case by (simp add: texts)
qed

section \<open>A table fragment in the input\<close>

lemma prefix_Cons_append:
  "prefix (c # cs) (xs @ ys) \<longleftrightarrow>
     (xs = [] \<and> prefix (c # cs) ys) \<or> (\<exists>xs'. xs = c # xs' \<and> prefix cs (xs' @ ys))"
  by (cases xs) auto

text \<open>
  An occurrence of \<open></table>\<close> cannot begin in front of another one and end inside it: the
  closing tag has its \<open><\<close> at the first place only.
\<close>

lemma close_no_straddle:
  "prefix ''</table>'' (xs @ ''</table>'' @ post) \<Longrightarrow> xs \<noteq> [] \<Longrightarrow> prefix ''</table>'' xs"
  by (auto simp: prefix_Cons_append)

lemma index_of_close:
  "index_of ''</table>'' body = None \<Longrightarrow>
   index_of ''</table>'' (body @ ''</table>'' @ post) = Some (length body)"
proof (induction body)
  case Nil
  show ?case by simp
next
  case (Cons b bs)
  from Cons.prems have np: "\<not> prefix ''</table>'' (b # bs)"
    and n: "index_of ''</table>'' bs = None"
    by (auto split: if_splits)
  from np close_no_straddle [of "b # bs" post]
  have "\<not> prefix ''</table>'' ((b # bs) @ ''</table>'' @ post)"
    by blast
  with Cons.IH [OF n] show ?case by simp
qed

text \<open>The protection step in front of, and at, a fragment whose body has no closing tag.\<close>

lemma table_re_first: "table_re (c # cs) = Some k \<Longrightarrow> c = CHR ''<''"
  by (auto simp: table_re_def lazy_between_def table_open_def split: if_splits)

lemma protect_skip:
  "CHR ''<'' \<notin> set pre \<Longrightarrow>
   protect_tables ts (pre @ s) = (pre @ fst (protect_tables ts s), snd (protect_tables ts s))"
proof (induction pre)
  case Nil
  show ?case by simp
next
  case (Cons c pre)
  then have "table_re (c # pre @ s) = None"
    using table_re_first [of c "pre @ s"] by (cases "table_re (c # pre @ s)") auto
  with Cons show ?case by (simp add: case_prod_beta)
qed

lemma protect_fragment:
  assumes "index_of ''</table>'' body = None"
  shows "protect_tables ts (table_open @ body @ ''</table>'' @ post)
     = (placeholder (length ts)
          @ fst (protect_tables (ts @ [table_open @ body @ ''</table>'']) post),
        snd (protect_tables (ts @ [table_open @ body @ ''</table>'']) post))"
proof -
  let ?t = "table_open @ body @ ''</table>''"
  obtain c cs where t: "?t = c # cs" by (simp add: table_open_def)
  have p: "prefix table_open (?t @ post)" by simp
  have d: "drop (length table_open) (?t @ post) = body @ ''</table>'' @ post" by simp
  have i: "index_of ''</table>'' (drop (length table_open) (?t @ post)) = Some (length body)"
    unfolding d using assms by (rule index_of_close)
  have "table_re (?t @ post) = Some (length table_open + length body + length ''</table>'')"
    by (simp only: table_re_def lazy_between_def p i if_True option.case option.map snd_conv)
  also have "length table_open + length body + length ''</table>'' = length ?t" by simp
  also have "\<dots> = Suc (length cs)" by (simp only: t length_Cons)
  finally have re: "table_re (c # cs @ post) = Some (Suc (length cs))"
    by (simp only: t append_Cons)
  have "protect_tables ts (c # cs @ post)
     = (placeholder (length ts) @ fst (protect_tables (ts @ [c # cs]) post),
        snd (protect_tables (ts @ [c # cs]) post))"
    by (simp add: re Let_def case_prod_beta)
  then show ?thesis by (metis t append_Cons append_assoc)
qed

lemma protect_snd_keeps: "\<exists>found. snd (protect_tables ts s) = ts @ found"
  using protect_weave [of ts s "fst (protect_tables ts s)" "snd (protect_tables ts s)"] by auto

lemma protect_one_fragment:
  assumes "index_of ''</table>'' body = None"
  shows "protect_tables [] (table_open @ body @ ''</table>'')
     = (placeholder 0, [table_open @ body @ ''</table>''])"
  using protect_fragment [OF assms, of "[]" "[]"] by simp

text \<open>The stages between the two steps of the placeholder, on the placeholder alone.\<close>

lemma before_restore:
  "wrap_lists (block_markup (inline_markup (escape_html (placeholder 0)))) = escaped_placeholder 0"
  by code_simp

lemma after_restore:
  "cleanup (paragraphs (restore_markers 0 [t] (escaped_placeholder 0))) = marker 0"
proof -
  have "cleanup (paragraphs (replace_first (escaped_placeholder 0)
      ([NL, NL] @ marker 0 @ [NL, NL]) (escaped_placeholder 0))) = marker 0"
    by code_simp
  then show ?thesis by (simp only: restore_markers_simps)
qed

lemma restore_self: "restore_tables 0 [t] (marker 0) = expand (marker 0) [] [] t"
proof -
  have "index_of (marker 0) (marker 0) = Some 0" by code_simp
  then show ?thesis by (simp add: replace_first_def)
qed

section \<open>C1: escaping of the input\<close>

text \<open>
  C1. The cells of a table are copied from the input into the table before the escaping
  stage, and the finished table is kept away from that stage: a \<open><script>\<close> element in a
  header cell reaches the output as it is, under every limit \<open>256 + L\<close>.
\<close>

theorem table_cell_not_escaped:
  \<open>parseMarkdown (256 + L)
     (''| <script>alert(1)</script> | b |'' @ [NL] @ ''|---|---|'' @ [NL] @ ''| 1 | 2 |'')
     = Inr ''<table class="chat-table"><thead><tr><th><script>alert(1)</script></th><th>b</th></tr></thead><tbody><tr><td>1</td><td>2</td></tr></tbody></table>''\<close>
proof (rule parseMarkdown_from)
  show \<open>length (parseTable
      (''| <script>alert(1)</script> | b |'' @ [NL] @ ''|---|---|'' @ [NL] @ ''| 1 | 2 |'')) \<le> 256\<close>
    by code_simp
  show \<open>parseMarkdown_try 256
     (''| <script>alert(1)</script> | b |'' @ [NL] @ ''|---|---|'' @ [NL] @ ''| 1 | 2 |'')
     = Inr ''<table class="chat-table"><thead><tr><th><script>alert(1)</script></th><th>b</th></tr></thead><tbody><tr><td>1</td><td>2</td></tr></tbody></table>''\<close>
    by code_simp
qed

text \<open>Outside a table the same element is escaped.\<close>

lemma script_escaped:
  \<open>parseMarkdown (256 + L) ''<script>alert(1)</script>''
     = Inr ''<p>&lt;script&gt;alert(1)&lt;/script&gt;</p>''\<close>
proof (rule parseMarkdown_from)
  show \<open>length (parseTable ''<script>alert(1)</script>'') \<le> 256\<close>
    by code_simp
  show \<open>parseMarkdown_try 256 ''<script>alert(1)</script>''
     = Inr ''<p>&lt;script&gt;alert(1)&lt;/script&gt;</p>''\<close>
    by code_simp
qed

text \<open>The escaping stage itself leaves no \<open><\<close> and no \<open>>\<close> in the text it is given.\<close>

lemma set_replace_char:
  "set (replace_char c rep s) = (set s - {c}) \<union> (if c \<in> set s then set rep else {})"
  by (induction s) (auto simp: replace_char_def)

lemma escape_html_no_angle:
  "CHR ''<'' \<notin> set (escape_html s) \<and> CHR ''>'' \<notin> set (escape_html s)"
  by (auto simp: escape_html_def escape_steps_def set_replace_char split: if_splits)

section \<open>C2: totality\<close>

text \<open>
  Where the text is a run of \<open>n\<close> characters \<open><\<close> and four times \<open>n\<close> is more than the
  limit, the escaping of \<open><\<close> in the \<open>try\<close> block throws \<open>RangeError\<close>, and the \<open>catch\<close>
  block, which begins with the same \<open>replace\<close>, throws it again, to the caller.
\<close>

lemma long_run_throws:
  assumes "n \<le> L" and "L < 4 * n"
  shows "parseMarkdown L (replicate n (CHR ''<'')) = Inl RangeError"
proof -
  let ?text = "replicate n (CHR ''<'')"
  have "parseTable ?text = ?text"
    by (rule parseTable_no_pipe) simp
  then have g: "parseTable_guarded L ?text = ?text"
    by (simp add: parseTable_guarded_def)
  have p: "protect_tables [] ?text = (?text, [])"
    by (rule protect_none) simp
  have amp: "replace_char (CHR ''&'') ''&amp;'' ?text = ?text"
    by (rule replace_char_absent) simp
  have "length (replace_char (CHR ''<'') ''&lt;'' ?text) = 4 * n"
    by (simp add: replace_char_replicate length_concat_replicate)
  with assms(2) have long: "\<not> length (replace_char (CHR ''<'') ''&lt;'' ?text) \<le> L"
    by simp
  from assms(1) long have "parseMarkdown_try L ?text = Inl RangeError"
    by (simp add: parseMarkdown_try_def g p steps_def escape_steps_def amp Let_def)
  moreover from long have "parseMarkdown_catch L ?text e = Inl RangeError" for e
    by (simp add: parseMarkdown_catch_def catch_steps_def Let_def)
  ultimately show ?thesis
    by (simp add: parseMarkdown_def try_catch_def)
qed

text \<open>
  C2. Under the limit of V8, \<open>parseMarkdown\<close> throws \<open>RangeError\<close> to its caller on the
  string of \<open>2^28\<close> characters \<open><\<close>, which is a string of that engine.
\<close>

theorem long_run_of_less_than_signs_is_thrown:
  "parseMarkdown (2 ^ 29 - 24) (replicate (2 ^ 28) (CHR ''<'')) = Inl RangeError"
  by (rule long_run_throws) simp_all

text \<open>
  A text of at most a quarter of the limit is rendered: where the \<open>try\<close> block throws, the
  \<open>catch\<close> block builds strings of at most four times the length of the text and seven
  characters more. The empty text is rendered as the empty string: the paragraph
  \<open><p></p>\<close> is built and then removed by the clean-up. Every loop of the model is a total
  function (the line loop of \<open>parseTable\<close>, the scan of a global \<open>replace\<close>, the run of list
  items and the decimal digits are defined with their termination proofs).
\<close>

lemma replace_char_Cons:
  "replace_char c rep (x # xs) = (if x = c then rep else [x]) @ replace_char c rep xs"
  by (simp add: replace_char_def)

lemma replace_char_append:
  "replace_char c rep (xs @ ys) = replace_char c rep xs @ replace_char c rep ys"
  by (simp add: replace_char_def)

lemma length_replace_char: "length (replace_char c rep s) \<le> max 1 (length rep) * length s"
proof (induction s)
  case Nil
  show ?case by (simp add: replace_char_def)
next
  case (Cons x xs)
  then show ?case by (auto simp: replace_char_Cons)
qed

lemma length_catch_escape:
  "length (replace_char (CHR ''>'') ''&gt;'' (replace_char (CHR ''<'') ''&lt;'' s)) \<le> 4 * length s"
proof (induction s)
  case Nil
  show ?case by (simp add: replace_char_def)
next
  case (Cons x xs)
  have "length (replace_char (CHR ''>'') ''&gt;'' (if x = CHR ''<'' then ''&lt;'' else [x])) \<le> 4"
    by (simp add: replace_char_def)
  with Cons show ?case
    by (simp only: replace_char_Cons [of "CHR ''<''"] replace_char_append length_append) simp
qed

lemma short_text_rendered:
  assumes "4 * length text + 7 \<le> L"
  shows "\<exists>html. parseMarkdown L text = Inr html"
proof (cases "parseMarkdown_try L text")
  case (Inr html)
  then show ?thesis by (simp add: parseMarkdown_def try_catch_def)
next
  case (Inl e)
  have "length (replace_char (CHR ''<'') ''&lt;'' text) \<le> 4 * length text"
    using length_replace_char [of "CHR ''<''" "''&lt;''" "text"] by simp
  with assms length_catch_escape [of "text"]
  have "parseMarkdown_catch L text e = Inr (''<p>''
      @ replace_char (CHR ''>'') ''&gt;'' (replace_char (CHR ''<'') ''&lt;'' text) @ ''</p>'')"
    by (simp add: parseMarkdown_catch_def catch_steps_def Let_def)
  with Inl show ?thesis by (simp add: parseMarkdown_def try_catch_def)
qed

lemma empty_text_rendered: "parseMarkdown (7 + L) [] = Inr []"
proof (rule parseMarkdown_from)
  show "length (parseTable []) \<le> 7" by code_simp
  show "parseMarkdown_try 7 [] = Inr []" by code_simp
qed

section \<open>C3: which runs become tables\<close>

text \<open>
  C3 as it is stated fails for a run of four pipe lines whose second line is not a separator row but
  whose third line is one: the first line is kept and the other three become a table.
\<close>

theorem failed_run_has_table_inside:
  \<open>\<not> is_separator (trim ''c|d'')
     \<and> parseTable (''a|b'' @ [NL] @ ''c|d'' @ [NL] @ ''|-|-|'' @ [NL] @ ''e|f'')
       = ''a|b'' @ [NL] @ ''<table class="chat-table"><thead><tr><th>c</th><th>d</th></tr></thead><tbody><tr><td>e</td><td>f</td></tr></tbody></table>''\<close>
  by code_simp

text \<open>
  C3, amended. When the loop of \<open>parseTable\<close> stands at the first line of a run of
  consecutive pipe lines (the run ends at the first line without a pipe, or at the end of
  the text), then if the run has at least three lines and its second line, trimmed,
  consists of \<open>|\<close>, \<open>-\<close>, \<open>:\<close> and white space only, the next element of the result is the
  table of the whole run and the loop goes on behind the run; and if not, the next element
  is the first line of the run as it is and the loop goes on at the second line, so that
  the rest of the run is tested again as a run of its own. The two lines of a run of exactly
  two lines are both passed on as they are, and the loop goes on behind them.
\<close>

theorem table_iff_valid_from_first_line:
  assumes "drop i lines = run @ rest" and "run \<noteq> []" and "\<forall>l\<in>set run. pipe_line l"
    and "rest = [] \<or> \<not> pipe_line (hd rest)"
  shows "parseTable_while lines i result =
      result @
        (if 3 \<le> length run \<and> is_separator (trim (run ! 1))
         then table_html (map trim run) # parseTable_while lines (i + length run) []
         else run ! 0 # parseTable_while lines (i + 1) [])
     \<and> (length run = 2 \<longrightarrow>
          parseTable_while lines i result = result @ run @ parseTable_while lines (i + 2) [])"
proof
  have v: "valid_table (map trim run) \<longleftrightarrow> 3 \<le> length run \<and> is_separator (trim (run ! 1))"
    by (auto simp: valid_table_def)
  have dn: "drop (i + n) lines = drop n (run @ rest)" for n
    using assms(1) by (metis add.commute drop_drop)
  from assms(2) have hd: "hd run = run ! 0" by (simp add: hd_conv_nth)
  have d1: "drop (i + length run) lines = rest"
    using dn [of "length run"] by simp
  have d2: "drop (Suc i) lines = tl run @ rest"
    using dn [of 1] assms(2) by (cases run) simp_all
  have "parseTable_while lines i result = result @ parseTable_loop (run @ rest)"
    by (simp add: while_eq assms(1))
  also have "\<dots> = result @
      (if valid_table (map trim run) then table_html (map trim run) # parseTable_loop rest
       else hd run # parseTable_loop (tl run @ rest))"
    by (simp only: loop_run [OF assms(2,3,4)])
  also have "\<dots> = result @
      (if 3 \<le> length run \<and> is_separator (trim (run ! 1))
       then table_html (map trim run) # parseTable_while lines (i + length run) []
       else run ! 0 # parseTable_while lines (i + 1) [])"
    by (simp add: v while_eq d1 d2 hd)
  finally show "parseTable_while lines i result = result @
      (if 3 \<le> length run \<and> is_separator (trim (run ! 1))
       then table_html (map trim run) # parseTable_while lines (i + length run) []
       else run ! 0 # parseTable_while lines (i + 1) [])" .
  show "length run = 2 \<longrightarrow>
      parseTable_while lines i result = result @ run @ parseTable_while lines (i + 2) []"
  proof
    assume "length run = 2"
    then obtain a b where run: "run = [a, b]"
      by (auto simp: length_Suc_conv numeral_2_eq_2)
    with assms(3) have a: "\<forall>l\<in>set [a, b]. pipe_line l" and b: "\<forall>l\<in>set [b]. pipe_line l"
      by simp_all
    have "parseTable_loop ([a, b] @ rest) = a # parseTable_loop ([b] @ rest)"
      using loop_run [OF _ a assms(4)] by (simp add: valid_table_def)
    also have "parseTable_loop ([b] @ rest) = b # parseTable_loop rest"
      using loop_run [OF _ b assms(4)] by (simp add: valid_table_def)
    finally have "parseTable_loop (run @ rest) = run @ parseTable_loop rest"
      by (simp add: run)
    moreover have "drop (i + 2) lines = rest"
      using dn [of 2] by (simp add: run)
    ultimately show "parseTable_while lines i result
        = result @ run @ parseTable_while lines (i + 2) []"
      by (simp add: while_eq assms(1))
  qed
qed

text \<open>
  A run of three lines with a separator row, which becomes a table, and a run of two lines,
  which is passed on, each between two lines without a pipe.
\<close>

theorem table_iff_valid_from_first_line_witness:
  \<open>parseTable_while [''intro'', ''a|b'', ''|-|-|'', ''1|2'', ''x''] 1 [''intro'']
     = [''intro'', ''<table class="chat-table"><thead><tr><th>a</th><th>b</th></tr></thead><tbody><tr><td>1</td><td>2</td></tr></tbody></table>'', ''x'']
   \<and> parseTable_while [''intro'', ''a|b'', ''c|d'', ''x''] 1 [''intro'']
     = [''intro'', ''a|b'', ''c|d'', ''x'']\<close>
proof
  let ?lines = "[''intro'', ''a|b'', ''|-|-|'', ''1|2'', ''x'']"
  let ?run = "[''a|b'', ''|-|-|'', ''1|2'']"
  have 1: "drop 1 ?lines = ?run @ [''x'']" by simp
  have 2: "?run \<noteq> []" by simp
  have 3: "\<forall>l\<in>set ?run. pipe_line l" by code_simp
  have 4: "[''x''] = [] \<or> \<not> pipe_line (hd [''x''])" by code_simp
  have 5: \<open>[''intro''] @
        (if 3 \<le> length ?run \<and> is_separator (trim (?run ! 1))
         then table_html (map trim ?run) # parseTable_while ?lines (1 + length ?run) []
         else ?run ! 0 # parseTable_while ?lines (1 + 1) [])
      = [''intro'', ''<table class="chat-table"><thead><tr><th>a</th><th>b</th></tr></thead><tbody><tr><td>1</td><td>2</td></tr></tbody></table>'', ''x'']\<close>
    by code_simp
  from table_iff_valid_from_first_line [OF 1 2 3 4, where result = "[''intro'']"]
  have "parseTable_while ?lines 1 [''intro''] = [''intro''] @
        (if 3 \<le> length ?run \<and> is_separator (trim (?run ! 1))
         then table_html (map trim ?run) # parseTable_while ?lines (1 + length ?run) []
         else ?run ! 0 # parseTable_while ?lines (1 + 1) [])"
    by (rule conjunct1)
  then show \<open>parseTable_while ?lines 1 [''intro'']
     = [''intro'', ''<table class="chat-table"><thead><tr><th>a</th><th>b</th></tr></thead><tbody><tr><td>1</td><td>2</td></tr></tbody></table>'', ''x'']\<close>
    by (simp only: 5)
next
  let ?lines = "[''intro'', ''a|b'', ''c|d'', ''x'']"
  let ?run = "[''a|b'', ''c|d'']"
  have 1: "drop 1 ?lines = ?run @ [''x'']" by simp
  have 2: "?run \<noteq> []" by simp
  have 3: "\<forall>l\<in>set ?run. pipe_line l" by code_simp
  have 4: "[''x''] = [] \<or> \<not> pipe_line (hd [''x''])" by code_simp
  have 5: "[''intro''] @ ?run @ parseTable_while ?lines (1 + 2) []
      = [''intro'', ''a|b'', ''c|d'', ''x'']"
    by code_simp
  have 6: "length ?run = 2" by simp
  from table_iff_valid_from_first_line [OF 1 2 3 4, where result = "[''intro'']"] 6
  have "parseTable_while ?lines 1 [''intro'']
      = [''intro''] @ ?run @ parseTable_while ?lines (1 + 2) []"
    by blast
  then show "parseTable_while ?lines 1 [''intro''] = [''intro'', ''a|b'', ''c|d'', ''x'']"
    by (simp only: 5)
qed

text \<open>Two pipe lines alone go through the whole renderer as text.\<close>

lemma two_pipe_lines_rendered:
  \<open>parseMarkdown (256 + L) (''a|b'' @ [NL] @ ''c|d'') = Inr ''<p>a|b<br>c|d</p>''\<close>
proof (rule parseMarkdown_from)
  show "length (parseTable (''a|b'' @ [NL] @ ''c|d'')) \<le> 256" by code_simp
  show "parseMarkdown_try 256 (''a|b'' @ [NL] @ ''c|d'') = Inr ''<p>a|b<br>c|d</p>''"
    by code_simp
qed

section \<open>C4: the table of a valid run\<close>



section \<open>C5: placeholders\<close>


text \<open>
  A marker also reaches the output when a cell of the table contains \<open>$&\<close>, which the last
  \<open>replace\<close> expands to the text it has matched.
\<close>

lemma dollar_ampersand_leaks_marker:
  \<open>parseMarkdown (256 + L) (''| $& | b |'' @ [NL] @ ''|---|---|'' @ [NL] @ ''| 1 | 2 |'')
     = Inr ''<table class="chat-table"><thead><tr><th>###TABLE0###</th><th>b</th></tr></thead><tbody><tr><td>1</td><td>2</td></tr></tbody></table>''\<close>
proof (rule parseMarkdown_from)
  show \<open>length (parseTable (''| $& | b |'' @ [NL] @ ''|---|---|'' @ [NL] @ ''| 1 | 2 |'')) \<le> 256\<close>
    by code_simp
  show \<open>parseMarkdown_try 256 (''| $& | b |'' @ [NL] @ ''|---|---|'' @ [NL] @ ''| 1 | 2 |'')
     = Inr ''<table class="chat-table"><thead><tr><th>###TABLE0###</th><th>b</th></tr></thead><tbody><tr><td>1</td><td>2</td></tr></tbody></table>''\<close>
    by code_simp
qed



section \<open>C6: paragraphs around block elements\<close>

text \<open>
  C6. A header on the line after a line of text stays inside the paragraph of that text: the
  clean-up removes \<open><p>\<close> only directly in front of \<open><h1>\<close>, and it removes the \<open></p>\<close>
  behind \<open></h1>\<close>, so the paragraph is not even closed.
\<close>

theorem header_inside_paragraph:
  \<open>parseMarkdown (256 + L) (''a'' @ [NL] @ ''# T'') = Inr ''<p>a<br><h1>T</h1>''\<close>
proof (rule parseMarkdown_from)
  show "length (parseTable (''a'' @ [NL] @ ''# T'')) \<le> 256" by code_simp
  show "parseMarkdown_try 256 (''a'' @ [NL] @ ''# T'') = Inr ''<p>a<br><h1>T</h1>''"
    by code_simp
qed

text \<open>The two examples of the specification come out as it says.\<close>

lemma header_then_paragraph:
  \<open>parseMarkdown (256 + L) (''# Title'' @ [NL, NL] @ ''Body text'')
     = Inr ''<h1>Title</h1><p>Body text</p>''\<close>
proof (rule parseMarkdown_from)
  show "length (parseTable (''# Title'' @ [NL, NL] @ ''Body text'')) \<le> 256" by code_simp
  show "parseMarkdown_try 256 (''# Title'' @ [NL, NL] @ ''Body text'')
      = Inr ''<h1>Title</h1><p>Body text</p>''"
    by code_simp
qed

lemma table_between_paragraphs:
  \<open>parseMarkdown (256 + L)
     (''Intro'' @ [NL, NL] @ ''| a | b |'' @ [NL] @ ''|---|---|'' @ [NL] @ ''| 1 | 2 |''
       @ [NL, NL] @ ''Outro'')
     = Inr ''<p>Intro</p><table class="chat-table"><thead><tr><th>a</th><th>b</th></tr></thead><tbody><tr><td>1</td><td>2</td></tr></tbody></table><p>Outro</p>''\<close>
proof (rule parseMarkdown_from)
  show \<open>length (parseTable
     (''Intro'' @ [NL, NL] @ ''| a | b |'' @ [NL] @ ''|---|---|'' @ [NL] @ ''| 1 | 2 |''
       @ [NL, NL] @ ''Outro'')) \<le> 256\<close>
    by code_simp
  show \<open>parseMarkdown_try 256
     (''Intro'' @ [NL, NL] @ ''| a | b |'' @ [NL] @ ''|---|---|'' @ [NL] @ ''| 1 | 2 |''
       @ [NL, NL] @ ''Outro'')
     = Inr ''<p>Intro</p><table class="chat-table"><thead><tr><th>a</th><th>b</th></tr></thead><tbody><tr><td>1</td><td>2</td></tr></tbody></table><p>Outro</p>''\<close>
    by code_simp
qed

section \<open>C7: the failure branch\<close>

text \<open>
  What the \<open>catch\<close> block does when the block in front of it throws: it replaces \<open><\<close> and
  \<open>>\<close> in the text and puts the result between \<open><p>\<close> and \<open></p>\<close>; nothing of the failed
  block is used.
\<close>

lemma try_catch_fault:
  "body text = Inl error \<Longrightarrow> try_catch L body text = run_steps L catch_steps text"
  by (simp add: try_catch_def parseMarkdown_catch_def)

lemma catch_value:
  "run_steps L catch_steps text = Inr html \<Longrightarrow>
   html = ''<p>'' @ replace_char (CHR ''>'') ''&gt;'' (replace_char (CHR ''<'') ''&lt;'' text) @ ''</p>''"
  using run_value [of L catch_steps "text" html] by (simp add: catch_steps_def)

text \<open>
  C7. When a stage throws, the \<open>catch\<close> block returns the text between \<open><p>\<close> and
  \<open></p>\<close> with \<open><\<close> and \<open>>\<close> escaped but \<open>&\<close> left as it is, where the escaping stage of
  the \<open>try\<close> block writes \<open>&amp;\<close>: on \<open>a&b<c\<close> the fallback is \<open><p>a&b&lt;c</p>\<close>, not
  the HTML-escaped text, under every limit \<open>16 + L\<close>.
\<close>

theorem catch_keeps_ampersand:
  \<open>try_catch (16 + L) (\<lambda>text. Inl (Exn ''fault'')) ''a&b<c'' = Inr ''<p>a&b&lt;c</p>''
     \<and> escape_html ''a&b<c'' = ''a&amp;b&lt;c''\<close>
proof
  have "run_steps 16 catch_steps ''a&b<c'' = Inr ''<p>a&b&lt;c</p>''"
    by code_simp
  then have "run_steps (16 + L) catch_steps ''a&b<c'' = Inr ''<p>a&b&lt;c</p>''"
    by (rule run_mono)
  then show "try_catch (16 + L) (\<lambda>text. Inl (Exn ''fault'')) ''a&b<c'' = Inr ''<p>a&b&lt;c</p>''"
    by (simp add: try_catch_def parseMarkdown_catch_def)
  show "escape_html ''a&b<c'' = ''a&amp;b&lt;c''"
    by code_simp
qed

text \<open>
  The \<open>catch\<close> block is reached without a fault from outside: on a run of \<open>n\<close> characters
  \<open>&\<close>, where five times \<open>n\<close> is more than the limit, the escaping of \<open>&\<close> in the \<open>try\<close>
  block throws, and the \<open>catch\<close> block returns the run as it is between \<open><p>\<close> and \<open></p>\<close>.
\<close>

lemma ampersands_reach_catch:
  assumes "n + 7 \<le> L" and "L < 5 * n"
  shows "parseMarkdown L (replicate n (CHR ''&''))
     = Inr (''<p>'' @ replicate n (CHR ''&'') @ ''</p>'')"
proof -
  let ?text = "replicate n (CHR ''&'')"
  have "parseTable ?text = ?text"
    by (rule parseTable_no_pipe) simp
  then have g: "parseTable_guarded L ?text = ?text"
    by (simp add: parseTable_guarded_def)
  have p: "protect_tables [] ?text = (?text, [])"
    by (rule protect_none) simp
  have "length (replace_char (CHR ''&'') ''&amp;'' ?text) = 5 * n"
    by (simp add: replace_char_replicate length_concat_replicate)
  with assms(2) have long: "\<not> length (replace_char (CHR ''&'') ''&amp;'' ?text) \<le> L"
    by simp
  from assms(1) long have "parseMarkdown_try L ?text = Inl RangeError"
    by (simp add: parseMarkdown_try_def g p steps_def escape_steps_def Let_def)
  moreover have "replace_char (CHR ''<'') ''&lt;'' ?text = ?text"
    by (rule replace_char_absent) simp
  moreover have "replace_char (CHR ''>'') ''&gt;'' ?text = ?text"
    by (rule replace_char_absent) simp
  ultimately show ?thesis
    using assms(1)
    by (simp add: parseMarkdown_def try_catch_def parseMarkdown_catch_def catch_steps_def Let_def)
qed

section \<open>C8: the lines that parseTable keeps\<close>

text \<open>
  C8. The lines of the input can be cut into segments, each a single line or a run of pipe
  lines that passes the test, such that the result of \<open>parseTable\<close> has, in the same order
  and joined by line breaks again, the single lines unchanged and one table for each run;
  and the input is its lines joined by line breaks. So every line outside a run that
  becomes a table is returned character by character, at its place.
\<close>

theorem parseTable_keeps_other_lines:
  "\<exists>segs. split NL text = concat (map seg_lines segs)
     \<and> parseTable text = join [NL] (map seg_out segs)
     \<and> list_all seg_ok segs
     \<and> join [NL] (split NL text) = text"
  using loop_segments [of "split NL text"] by (auto simp: parseTable_lines join_split)

text \<open>
  Where the result would be longer than the limit, \<open>parseTable\<close> returns the text, and the
  same holds with every line a segment of its own.
\<close>

lemma parseTable_guarded_keeps_other_lines:
  "\<exists>segs. split NL text = concat (map seg_lines segs)
     \<and> parseTable_guarded L text = join [NL] (map seg_out segs)
     \<and> list_all seg_ok segs"
proof (cases "length (parseTable text) \<le> L")
  case True
  with parseTable_keeps_other_lines [of "text"] show ?thesis
    by (auto simp: parseTable_guarded_def)
next
  case False
  have "ls = concat (map seg_lines (map Plain ls))" for ls
    by (induction ls) simp_all
  moreover have "map seg_out (map Plain ls) = ls" for ls
    by (induction ls) simp_all
  moreover have "list_all seg_ok (map Plain ls)" for ls
    by (induction ls) simp_all
  ultimately show ?thesis
    using False by (metis parseTable_guarded_def join_split)
qed

text \<open>An example: the white space of the lines outside the table is kept.\<close>

lemma parseTable_example:
  \<open>parseTable (''  a '' @ [NL, NL] @ '' | h | '' @ [NL] @ ''|-|'' @ [NL] @ ''| x |'' @ [NL] @ '' b'')
     = ''  a '' @ [NL, NL] @ ''<table class="chat-table"><thead><tr><th>h</th></tr></thead><tbody><tr><td>x</td></tr></tbody></table>'' @ [NL] @ '' b''\<close>
  by code_simp

section \<open>C9: bold\<close>

text \<open>
  C9. Only \<open>**text**\<close> becomes \<open><strong>\<close>. There is no stage for \<open>__text__\<close>: the italic
  stage for \<open>_\<close> takes its inner pair of underscores.
\<close>

theorem underscores_not_bold:
  \<open>parseMarkdown (256 + L) ''__bold__'' = Inr ''<p>_<em>bold</em>_</p>''\<close>
proof (rule parseMarkdown_from)
  show "length (parseTable ''__bold__'') \<le> 256" by code_simp
  show "parseMarkdown_try 256 ''__bold__'' = Inr ''<p>_<em>bold</em>_</p>''" by code_simp
qed

text \<open>
  Two bold spans with \<open>**\<close> on one line stay two elements, and the stages of \<open>script.js\<close>
  make \<open>__text__\<close> bold.
\<close>

lemma two_bold_spans:
  \<open>parseMarkdown (256 + L) ''**a** **b**'' = Inr ''<p><strong>a</strong> <strong>b</strong></p>''\<close>
proof (rule parseMarkdown_from)
  show "length (parseTable ''**a** **b**'') \<le> 256" by code_simp
  show "parseMarkdown_try 256 ''**a** **b**'' = Inr ''<p><strong>a</strong> <strong>b</strong></p>''"
    by code_simp
qed

lemma script_js_underscores_bold:
  \<open>script_js_emphasis ''__bold__ __too__'' = ''<strong>bold</strong> <strong>too</strong>''\<close>
  by code_simp

section \<open>C10: a table fragment in the input\<close>

text \<open>
  C10. A fragment \<open><table class="chat-table">...</table>\<close> of the input is stored by the
  protection step and put back by the last \<open>replace\<close>, which is meant to write the stored
  text as it is but reads it as a replacement template: where the fragment contains \<open>$$\<close>,
  one \<open>$\<close> is written for the two, and the fragment is not emitted verbatim.
\<close>

theorem dollars_in_fragment_change:
  \<open>parseMarkdown (256 + L) ''<table class="chat-table">$$</table>''
     = Inr ''<table class="chat-table">$</table>''\<close>
proof (rule parseMarkdown_from)
  show \<open>length (parseTable ''<table class="chat-table">$$</table>'') \<le> 256\<close>
    by code_simp
  show \<open>parseMarkdown_try 256 ''<table class="chat-table">$$</table>''
     = Inr ''<table class="chat-table">$</table>''\<close>
    by code_simp
qed

text \<open>
  Without \<open>$\<close> the fragment is emitted as the claim says, unescaped, also between other
  markup and behind a line with a pipe.
\<close>

lemma table_fragment_in_text:
  \<open>parseMarkdown (256 + L) ''see <table class="chat-table"><script>alert(1)</script></table> here''
     = Inr ''<p>see </p><table class="chat-table"><script>alert(1)</script></table><p> here</p>''\<close>
proof (rule parseMarkdown_from)
  show \<open>length (parseTable
      ''see <table class="chat-table"><script>alert(1)</script></table> here'') \<le> 256\<close>
    by code_simp
  show \<open>parseMarkdown_try 256 ''see <table class="chat-table"><script>alert(1)</script></table> here''
     = Inr ''<p>see </p><table class="chat-table"><script>alert(1)</script></table><p> here</p>''\<close>
    by code_simp
qed

lemma table_fragment_behind_markup:
  \<open>parseMarkdown (256 + L) ''x <b>y</b> <table class="chat-table"><i>z</i></table> w''
     = Inr ''<p>x &lt;b&gt;y&lt;/b&gt; </p><table class="chat-table"><i>z</i></table><p> w</p>''\<close>
proof (rule parseMarkdown_from)
  show \<open>length (parseTable ''x <b>y</b> <table class="chat-table"><i>z</i></table> w'') \<le> 256\<close>
    by code_simp
  show \<open>parseMarkdown_try 256 ''x <b>y</b> <table class="chat-table"><i>z</i></table> w''
     = Inr ''<p>x &lt;b&gt;y&lt;/b&gt; </p><table class="chat-table"><i>z</i></table><p> w</p>''\<close>
    by code_simp
qed

lemma table_fragment_behind_pipe:
  \<open>parseMarkdown (256 + L) ''a | b <table class="chat-table"><i>z</i></table> w''
     = Inr ''<p>a | b </p><table class="chat-table"><i>z</i></table><p> w</p>''\<close>
proof (rule parseMarkdown_from)
  show \<open>length (parseTable ''a | b <table class="chat-table"><i>z</i></table> w'') \<le> 256\<close>
    by code_simp
  show \<open>parseMarkdown_try 256 ''a | b <table class="chat-table"><i>z</i></table> w''
     = Inr ''<p>a | b </p><table class="chat-table"><i>z</i></table><p> w</p>''\<close>
    by code_simp
qed

end
